theory Spec2Isabelle
  imports Main "HOL-Library.Multiset"
begin

section \<open>Values of the server\<close>

text \<open>
  A response object (\<^verbatim>\<open>res\<close>) is a held connection; the model knows it by a number.
  The calls the server makes on response objects are recorded in the order they are made:
  \<^verbatim>\<open>res.writeHead(200, ...)\<close>, \<^verbatim>\<open>res.statusCode = n\<close>, \<^verbatim>\<open>res.end(text)\<close>
  (\<open>None\<close> is \<^verbatim>\<open>undefined\<close>) and \<^verbatim>\<open>res.write(text)\<close>.
\<close>

type_synonym handle = nat

datatype effect =
    WriteHead handle nat
  | StatusCode handle nat
  | End handle "string option"
  | Write handle string

text \<open>
  \<^verbatim>\<open>querystring.parse(reqBody)['id']\<close> is \<^verbatim>\<open>undefined\<close> when the body has no
  \<^verbatim>\<open>id\<close>, a string when it has one, and an array of strings when it has several.
\<close>

datatype qsval = QUndefined | QStr string | QArr "string list"

fun join :: "string list \<Rightarrow> string" where
  "join [] = []"
| "join [x] = x"
| "join (x # y # zs) = x @ '','' @ join (y # zs)"

text \<open>String conversion, as \<^verbatim>\<open>+\<close> and a property access apply it.\<close>

fun to_String :: "qsval \<Rightarrow> string" where
  "to_String QUndefined = ''undefined''"
| "to_String (QStr s) = s"
| "to_String (QArr xs) = join xs"

definition dquote :: char where
  "dquote = CHR 0x22"

definition CRLF :: string where
  "CRLF = [CHR 0x0D, CHR 0x0A]"

definition GO :: string where
  "GO = ''GO'' @ CRLF"

definition HOLD :: string where
  "HOLD = ''HOLD'' @ CRLF"

text \<open>
  \<^verbatim>\<open>expectedIds.indexOf(id)\<close> on the array of strings of the configuration: the first
  index whose element is strictly equal to \<^verbatim>\<open>id\<close>, \<open>-1\<close> when there is none. Only a
  string is strictly equal to a string.
\<close>

fun indexOf :: "string list \<Rightarrow> qsval \<Rightarrow> int" where
  "indexOf [] v = -1"
| "indexOf (x # xs) v =
     (if QStr x = v then 0
      else (let r = indexOf xs v in if r = -1 then -1 else r + 1))"

section \<open>Objects used as dictionaries\<close>

text \<open>
  An object is the list of its own enumerable properties in the order \<^verbatim>\<open>Object.keys\<close>
  gives them in V8: the array indices (canonical decimal numerals below \<open>2^32 - 1\<close>) in
  ascending order, then the other keys in the order they were created.
\<close>

type_synonym 'v obj = "(string \<times> 'v) list"

definition Object_keys :: "'v obj \<Rightarrow> string list" where
  "Object_keys c = map fst c"

definition digit :: "char \<Rightarrow> int option" where
  "digit c = (let n = (of_char c :: int) in if 48 \<le> n \<and> n \<le> 57 then Some (n - 48) else None)"

fun digits_val :: "string \<Rightarrow> int \<Rightarrow> int option" where
  "digits_val [] acc = Some acc"
| "digits_val (c # cs) acc =
     (case digit c of None \<Rightarrow> None | Some d \<Rightarrow> digits_val cs (10 * acc + d))"

definition array_index :: "string \<Rightarrow> int option" where
  "array_index s =
     (if s = [] \<or> 10 < length s \<or> (1 < length s \<and> hd s = CHR ''0'') then None
      else case digits_val s 0 of
             None \<Rightarrow> None
           | Some n \<Rightarrow> if n < 4294967295 then Some n else None)"

fun insert_index :: "int \<Rightarrow> string \<Rightarrow> 'v \<Rightarrow> 'v obj \<Rightarrow> 'v obj" where
  "insert_index n k v [] = [(k, v)]"
| "insert_index n k v ((k', v') # rest) =
     (case array_index k' of
        None \<Rightarrow> (k, v) # (k', v') # rest
      | Some m \<Rightarrow> if m < n then (k', v') # insert_index n k v rest
                  else (k, v) # (k', v') # rest)"

text \<open>\<^verbatim>\<open>o[k] = v\<close>: an own property keeps its place, a new one takes the place its key gives it.\<close>

definition obj_set :: "'v obj \<Rightarrow> string \<Rightarrow> 'v \<Rightarrow> 'v obj" where
  "obj_set c k v =
     (if k \<in> set (map fst c) then map (\<lambda>(k', v'). if k' = k then (k', v) else (k', v')) c
      else case array_index k of
             None \<Rightarrow> c @ [(k, v)]
           | Some n \<Rightarrow> insert_index n k v c)"

text \<open>
  \<^verbatim>\<open>o[k]\<close> on an object made by \<^verbatim>\<open>{}\<close>: the own property, else what
  \<^verbatim>\<open>Object.prototype\<close> has under that name (never \<^verbatim>\<open>undefined\<close>), else
  \<^verbatim>\<open>undefined\<close>.
\<close>

definition Object_prototype :: "string list" where
  "Object_prototype =
     [''constructor'', ''toString'', ''toLocaleString'', ''valueOf'', ''hasOwnProperty'',
      ''isPrototypeOf'', ''propertyIsEnumerable'', ''__defineGetter__'', ''__defineSetter__'',
      ''__lookupGetter__'', ''__lookupSetter__'', ''__proto__'']"

datatype 'v propval = Undefined | Own 'v | Inherited

definition obj_get :: "'v obj \<Rightarrow> string \<Rightarrow> 'v propval" where
  "obj_get c k =
     (case map_of c k of
        Some v \<Rightarrow> Own v
      | None \<Rightarrow> if k \<in> set Object_prototype then Inherited else Undefined)"

section \<open>The request handler\<close>

text \<open>
  A request as the \<^verbatim>\<open>end\<close> listener sees it: \<^verbatim>\<open>req.method\<close>, \<^verbatim>\<open>req.url\<close> and
  \<^verbatim>\<open>querystring.parse(reqBody)['id']\<close>. A request target starts with \<^verbatim>\<open>/\<close>, is
  \<^verbatim>\<open>*\<close> or is an absolute URI, so it is never the name of a property of
  \<^verbatim>\<open>Object.prototype\<close>: \<^verbatim>\<open>config.expected[req.url]\<close> and
  \<^verbatim>\<open>checkinStore[req.url]\<close> are own properties or \<^verbatim>\<open>undefined\<close>.
\<close>

record request =
  req_method :: string
  req_url :: string
  req_id :: qsval

text \<open>The state: \<^verbatim>\<open>checkinStore\<close>, and the calls made on response objects so far.\<close>

record server =
  checkinStore :: "handle obj obj"
  sent :: "effect list"

definition init :: server where
  "init = \<lparr>checkinStore = [], sent = []\<rparr>"

text \<open>
  What a \<^verbatim>\<open>throw\<close> carries: an \<^verbatim>\<open>HttpError\<close> with its status code and message, or
  any other exception (one raised by a call on a response object, or a \<^verbatim>\<open>TypeError\<close>).
\<close>

datatype exn = HttpError nat "string option" | OtherError

text \<open>\<^verbatim>\<open>new HttpError(statusCode, message)\<close>: \<^verbatim>\<open>this.statusCode = statusCode || 400\<close>.\<close>

definition new_HttpError :: "nat \<Rightarrow> string option \<Rightarrow> exn" where
  "new_HttpError statusCode message =
     HttpError (if statusCode = 0 then 400 else statusCode) message"

definition unrecognized_msg :: "qsval \<Rightarrow> string" where
  "unrecognized_msg v = ''Unrecognized id: '' @ [dquote] @ to_String v @ [dquote] @ CRLF"

definition duplicate_msg :: "qsval \<Rightarrow> string" where
  "duplicate_msg v = ''Duplicate id: '' @ [dquote] @ to_String v @ [dquote] @ CRLF"

text \<open>The group's arrived map: \<^verbatim>\<open>checkinStore[url] || {}\<close>.\<close>

definition arrived :: "server \<Rightarrow> string \<Rightarrow> handle obj" where
  "arrived s u = (case map_of (checkinStore s) u of None \<Rightarrow> [] | Some c \<Rightarrow> c)"

text \<open>
  \<^verbatim>\<open>!expectedIds.some(function(id) { return checkins[id] === undefined; })\<close>
\<close>

definition allCheckedIn :: "string list \<Rightarrow> handle obj \<Rightarrow> bool" where
  "allCheckedIn expectedIds checkins =
     (\<not> list_ex (\<lambda>k. obj_get checkins k = Undefined) expectedIds)"

text \<open>
  \<^verbatim>\<open>keys.forEach(function(id) { checkins[id].m(text); })\<close>, where \<open>f h\<close> is the call
  \<^verbatim>\<open>h.m(text)\<close>. The parameter \<open>raises\<close> says which calls on response objects raise an
  exception instead of returning; an exception leaves the loop at once.
\<close>

fun forEach_call ::
  "(effect \<Rightarrow> bool) \<Rightarrow> (handle \<Rightarrow> effect) \<Rightarrow> handle obj \<Rightarrow> string list \<Rightarrow> effect list
     \<Rightarrow> exn option \<times> effect list" where
  "forEach_call raises f checkins [] log = (None, log)"
| "forEach_call raises f checkins (k # ks) log =
     (case obj_get checkins k of
        Own h \<Rightarrow>
          if raises (f h) then (Some OtherError, log)
          else forEach_call raises f checkins ks (log @ [f h])
      | _ \<Rightarrow> (Some OtherError, log))"

text \<open>
  The body of the \<^verbatim>\<open>try\<close> block of the \<^verbatim>\<open>end\<close> listener (lines 89 to 128): the
  exception it throws, if any, and the state it leaves. \<open>res\<close> is the response object of
  this request.
\<close>

definition try_body ::
  "(effect \<Rightarrow> bool) \<Rightarrow> string list obj \<Rightarrow> request \<Rightarrow> handle \<Rightarrow> server \<Rightarrow> exn option \<times> server" where
  "try_body raises expected req res s =
     (if req_method req \<noteq> ''POST'' then (Some (new_HttpError 405 None), s)
      else case map_of expected (req_url req) of
        None \<Rightarrow> (Some (new_HttpError 404 None), s)
      | Some expectedIds \<Rightarrow>
          let pid = req_id req in
          if indexOf expectedIds pid = -1
          then (Some (new_HttpError 400 (Some (unrecognized_msg pid))), s)
          else
            let checkins = arrived s (req_url req);
                s1 = s\<lparr>checkinStore := obj_set (checkinStore s) (req_url req) checkins\<rparr>
            in
            if obj_get checkins (to_String pid) \<noteq> Undefined
            then (Some (new_HttpError 400 (Some (duplicate_msg pid))), s1)
            else if raises (WriteHead res 200) then (Some OtherError, s1)
            else
              let checkins' = obj_set checkins (to_String pid) res;
                  s2 = s1\<lparr>checkinStore := obj_set (checkinStore s1) (req_url req) checkins',
                          sent := sent s1 @ [WriteHead res 200]\<rparr>
              in
              if allCheckedIn expectedIds checkins'
              then
                (case forEach_call raises (\<lambda>h. End h (Some GO)) checkins'
                        (Object_keys checkins') (sent s2) of
                   (None, log) \<Rightarrow>
                     (None, s2\<lparr>checkinStore := obj_set (checkinStore s2) (req_url req) [],
                                sent := log\<rparr>)
                 | (Some e, log) \<Rightarrow> (Some e, s2\<lparr>sent := log\<rparr>))
              else (None, s2))"

text \<open>
  How a listener ends: it returns, or an exception leaves it uncaught (the process stops).
\<close>

datatype outcome = Returned | Uncaught

text \<open>
  The \<^verbatim>\<open>end\<close> listener: the \<^verbatim>\<open>try\<close> block, and the \<^verbatim>\<open>catch\<close> block, which answers an
  \<^verbatim>\<open>HttpError\<close> with its status and message and throws any other exception again.
\<close>

definition on_end ::
  "(effect \<Rightarrow> bool) \<Rightarrow> string list obj \<Rightarrow> request \<Rightarrow> handle \<Rightarrow> server \<Rightarrow> outcome \<times> server" where
  "on_end raises expected req res s =
     (case try_body raises expected req res s of
        (None, s') \<Rightarrow> (Returned, s')
      | (Some (HttpError statusCode message), s') \<Rightarrow>
          if raises (End res message)
          then (Uncaught, s'\<lparr>sent := sent s' @ [StatusCode res statusCode]\<rparr>)
          else (Returned, s'\<lparr>sent := sent s' @ [StatusCode res statusCode, End res message]\<rparr>)
      | (Some OtherError, s') \<Rightarrow> (Uncaught, s'))"

section \<open>The keep-alive ticker and the events of the server\<close>

text \<open>
  The callback of \<^verbatim>\<open>setInterval\<close>: for every url of \<^verbatim>\<open>checkinStore\<close> and every id
  under it, \<^verbatim>\<open>checkinStore[url][id].write('HOLD\r\n')\<close>.
\<close>

fun forEach_url ::
  "(effect \<Rightarrow> bool) \<Rightarrow> handle obj obj \<Rightarrow> string list \<Rightarrow> effect list \<Rightarrow> exn option \<times> effect list" where
  "forEach_url raises store [] log = (None, log)"
| "forEach_url raises store (u # us) log =
     (case map_of store u of
        None \<Rightarrow> (Some OtherError, log)
      | Some c \<Rightarrow>
          (case forEach_call raises (\<lambda>h. Write h HOLD) c (Object_keys c) log of
             (None, log') \<Rightarrow> forEach_url raises store us log'
           | (Some e, log') \<Rightarrow> (Some e, log')))"

definition tick :: "(effect \<Rightarrow> bool) \<Rightarrow> server \<Rightarrow> outcome \<times> server" where
  "tick raises s =
     (case forEach_url raises (checkinStore s) (Object_keys (checkinStore s)) (sent s) of
        (None, log) \<Rightarrow> (Returned, s\<lparr>sent := log\<rparr>)
      | (Some e, log) \<Rightarrow> (Uncaught, s\<lparr>sent := log\<rparr>))"

text \<open>
  What can happen to the server: a request has been read to its end (with its response
  object), the interval fires, or the connection of a response object closes. The source
  registers listeners for \<^verbatim>\<open>data\<close> and \<^verbatim>\<open>end\<close> only, so when a connection closes no
  code of the server runs.
\<close>

datatype event = RequestEnd request handle | Interval | Close handle

fun step :: "(effect \<Rightarrow> bool) \<Rightarrow> string list obj \<Rightarrow> event \<Rightarrow> server \<Rightarrow> outcome \<times> server" where
  "step raises expected (RequestEnd req res) s = on_end raises expected req res s"
| "step raises expected Interval s = tick raises s"
| "step raises expected (Close h) s = (Returned, s)"

text \<open>
  A run of the server from a state: each event comes with the behaviour of the response
  objects while it is handled. The run has a result as long as no exception is left
  uncaught.
\<close>

fun run :: "string list obj \<Rightarrow> ((effect \<Rightarrow> bool) \<times> event) list \<Rightarrow> server \<Rightarrow> server option" where
  "run expected [] s = Some s"
| "run expected ((raises, ev) # evs) s =
     (case step raises expected ev s of
        (Returned, s') \<Rightarrow> run expected evs s'
      | (Uncaught, s') \<Rightarrow> None)"

section \<open>The configuration\<close>

text \<open>
  The JSON values of a configuration file. \<open>JNum n\<close> is a number whose value is the
  integer \<open>n\<close>; numbers with a fraction, or too large to be held exactly, are not in the
  model. An object is its list of members, as above.
\<close>

datatype json =
    JNull
  | JBool bool
  | JNum int
  | JStr string
  | JArr "json list"
  | JObj "(string \<times> json) list"

text \<open>
  The configuration object: its own properties, and what has been put in the place of its
  prototype (\<open>None\<close>: it is still \<^verbatim>\<open>Object.prototype\<close>, as for every object literal).
\<close>

record config =
  own_props :: "json obj"
  prototype :: "json option"

definition default_config :: config where
  "default_config =
     \<lparr>own_props =
        [(''expected'', JObj [(''/'', JArr [])]),
         (''hostname'', JNull),
         (''keepAliveIntervalMs'', JNum (60 * 1000)),
         (''port'', JNum 1337)],
      prototype = None\<rparr>"

text \<open>
  \<^verbatim>\<open>config[k] = v\<close>. Under the key \<^verbatim>\<open>__proto__\<close> the assignment makes no own
  property: an object, an array or \<^verbatim>\<open>null\<close> becomes the prototype, any other value is
  ignored.
\<close>

definition config_put :: "config \<Rightarrow> string \<Rightarrow> json \<Rightarrow> config" where
  "config_put config k v =
     (if k = ''__proto__'' then
        (case v of
           JObj m \<Rightarrow> config\<lparr>prototype := Some v\<rparr>
         | JArr xs \<Rightarrow> config\<lparr>prototype := Some v\<rparr>
         | JNull \<Rightarrow> config\<lparr>prototype := Some v\<rparr>
         | _ \<Rightarrow> config)
      else config\<lparr>own_props := obj_set (own_props config) k v\<rparr>)"

text \<open>
  Lines 66 to 78: the defaults, then every key of the parsed file copied over them with
  \<^verbatim>\<open>config[k] = userConfig[k]\<close>; \<open>None\<close> is a file that cannot be read or parsed (the
  \<^verbatim>\<open>catch\<close> only warns).
\<close>

definition load_config :: "json obj option \<Rightarrow> config" where
  "load_config userConfig =
     (case userConfig of
        None \<Rightarrow> default_config
      | Some u \<Rightarrow> fold (\<lambda>(k, v) config. config_put config k v) u default_config)"

text \<open>
  The second argument of \<^verbatim>\<open>setInterval\<close> (line 151): \<^verbatim>\<open>config.keepaliveIntervalMs\<close>,
  \<open>None\<close> for \<^verbatim>\<open>undefined\<close>. The property is read from the own properties, else through
  the prototype: an object of the file gives its member of that name, and neither
  \<^verbatim>\<open>Object.prototype\<close> nor an array nor \<^verbatim>\<open>null\<close> has a property of that name.
\<close>

definition ticker_interval :: "config \<Rightarrow> json option" where
  "ticker_interval config =
     (case map_of (own_props config) ''keepaliveIntervalMs'' of
        Some v \<Rightarrow> Some v
      | None \<Rightarrow>
          (case prototype config of
             Some (JObj m) \<Rightarrow> map_of m ''keepaliveIntervalMs''
           | _ \<Rightarrow> None))"

section \<open>The invariant of the arrived maps\<close>

text \<open>
  In every group the keys of the arrived map are distinct, none is the name of a property of
  \<^verbatim>\<open>Object.prototype\<close>, and each is one of the ids the configuration expects there.
\<close>

definition expected_set :: "string list obj \<Rightarrow> string \<Rightarrow> string set" where
  "expected_set expected u = (case map_of expected u of None \<Rightarrow> {} | Some ids \<Rightarrow> set ids)"

definition arrived_inv :: "string list obj \<Rightarrow> server \<Rightarrow> bool" where
  "arrived_inv expected s =
     (\<forall>u. distinct (Object_keys (arrived s u)) \<and>
          set (Object_keys (arrived s u)) \<subseteq> expected_set expected u - set Object_prototype)"

section \<open>Notions used to state the properties\<close>

text \<open>The arrived map of a group holds expected ids only, and no more entries than there are.\<close>

definition arrived_within :: "string list obj \<Rightarrow> server \<Rightarrow> string \<Rightarrow> bool" where
  "arrived_within expected s u =
     (set (Object_keys (arrived s u)) \<subseteq> expected_set expected u \<and>
      length (arrived s u) \<le> card (expected_set expected u))"

text \<open>The handles an arrived map holds under an id.\<close>

definition handles_of :: "handle obj \<Rightarrow> string \<Rightarrow> handle list" where
  "handles_of c i = map snd (filter (\<lambda>(k, h). k = i) c)"

text \<open>Response objects none of whose calls raises.\<close>

definition quiet :: "effect \<Rightarrow> bool" where
  "quiet e = False"

text \<open>A check-in request: a POST to a url with one id in its body.\<close>

definition post :: "string \<Rightarrow> string \<Rightarrow> request" where
  "post u i = \<lparr>req_method = ''POST'', req_url = u, req_id = QStr i\<rparr>"

text \<open>
  A round of check-ins at a url, given as the ids with their response objects in the order
  of arrival, and the calls a completed round makes on them.
\<close>

definition checkins_of :: "string \<Rightarrow> (string \<times> handle) list \<Rightarrow> ((effect \<Rightarrow> bool) \<times> event) list" where
  "checkins_of u r = map (\<lambda>(k, h). (quiet, RequestEnd (post u k) h)) r"

definition round_calls :: "(string \<times> handle) list \<Rightarrow> effect list" where
  "round_calls r =
     map (\<lambda>h. WriteHead h 200) (map snd r) @ map (\<lambda>h. End h (Some GO)) (map snd r)"

section \<open>An example: the group of the url / expects h1 and h2\<close>

definition ex_expected :: "string list obj" where
  "ex_expected = [(''/'', [''h1'', ''h2''])]"

text \<open>The state after h1 has checked in with response object 1.\<close>

definition ex_held :: server where
  "ex_held = \<lparr>checkinStore = [(''/'', [(''h1'', 1)])], sent = [WriteHead 1 200]\<rparr>"

text \<open>The state after h2 has checked in too, with response object 2.\<close>

definition ex_released :: server where
  "ex_released =
     \<lparr>checkinStore = [(''/'', [])],
      sent = [WriteHead 1 200, WriteHead 2 200, End 1 (Some GO), End 2 (Some GO)]\<rparr>"

text \<open>
  Two more groups of the url /: one that expects h1 alone, and one that expects h1 and an
  id with the name of a property of \<^verbatim>\<open>Object.prototype\<close>. In both, the state after h1
  has checked in with response object 1.
\<close>

definition ex_single :: "string list obj" where
  "ex_single = [(''/'', [''h1''])]"

definition ex_inherited :: "string list obj" where
  "ex_inherited = [(''/'', [''constructor'', ''h1''])]"

definition ex_alone_released :: server where
  "ex_alone_released =
     \<lparr>checkinStore = [(''/'', [])], sent = [WriteHead 1 200, End 1 (Some GO)]\<rparr>"

text \<open>Response objects where releasing object 1 raises.\<close>

definition raises_end1 :: "effect \<Rightarrow> bool" where
  "raises_end1 e = (e = End 1 (Some GO))"

section \<open>Facts about objects\<close>

lemma indexOf_ge: "- 1 \<le> indexOf xs v"
  by (induction xs) (auto simp: Let_def)

lemma indexOf_minus1_iff: "indexOf xs v = - 1 \<longleftrightarrow> (\<forall>s. v = QStr s \<longrightarrow> s \<notin> set xs)"
proof (induction xs)
  case Nil
  then show ?case by simp
next
  case (Cons x xs)
  have "- 1 \<le> indexOf xs v" by (rule indexOf_ge)
  with Cons show ?case by (auto simp: Let_def)
qed

lemma map_of_insert_index:
  "k \<notin> fst ` set c \<Longrightarrow> map_of (insert_index n k v c) = (map_of c)(k \<mapsto> v)"
proof (induction c)
  case Nil
  then show ?case by simp
next
  case (Cons a c)
  obtain k' v' where a: "a = (k', v')" by (cases a)
  from Cons.prems a have ne: "k \<noteq> k'" and notin: "k \<notin> fst ` set c" by auto
  show ?case using Cons.IH [OF notin] ne a
    by (auto simp: fun_upd_twist split: option.splits)
qed

lemma keys_insert_index:
  "set (map fst (insert_index n k v c)) = insert k (set (map fst c))"
proof (induction c)
  case Nil
  then show ?case by simp
next
  case (Cons a c)
  obtain k' v' where a: "a = (k', v')" by (cases a)
  show ?case
  proof (cases "array_index k'")
    case None
    with a show ?thesis by simp
  next
    case (Some m)
    with a Cons.IH show ?thesis by (cases "m < n") (simp_all add: insert_commute)
  qed
qed

lemma keys_insert_index_image:
  "fst ` set (insert_index n k v c) = insert k (fst ` set c)"
  using keys_insert_index [of n k v c] by simp

lemma distinct_insert_index:
  "k \<notin> fst ` set c \<Longrightarrow> distinct (map fst c) \<Longrightarrow> distinct (map fst (insert_index n k v c))"
proof (induction c)
  case Nil
  then show ?case by simp
next
  case (Cons a c)
  obtain k' v' where a: "a = (k', v')" by (cases a)
  from Cons.prems a have notin: "k \<notin> fst ` set c" and d: "distinct (map fst c)" by auto
  have ks: "set (map fst (insert_index n k v c)) = insert k (set (map fst c))"
    by (rule keys_insert_index)
  show ?case using Cons.IH [OF notin d] Cons.prems a ks
    by (auto split: option.splits)
qed

lemma map_of_replace:
  "map_of (map (\<lambda>(k', v'). if k' = k then (k', v) else (k', v')) c) =
     (if k \<in> fst ` set c then (map_of c)(k \<mapsto> v) else map_of c)"
  by (induction c) (auto simp: fun_upd_twist)

lemma keys_replace:
  "map (fst \<circ> (\<lambda>(k', v'). if k' = k then (k', v) else (k', v'))) c = map fst c"
  by (induction c) auto

lemma map_of_obj_set: "map_of (obj_set c k v) = (map_of c)(k \<mapsto> v)"
proof (cases "k \<in> fst ` set c")
  case True
  then show ?thesis by (simp add: obj_set_def map_of_replace)
next
  case False
  then show ?thesis
    by (auto simp: obj_set_def map_of_insert_index map_add_upd_left dom_map_of_conv_image_fst
        split: option.splits)
qed

lemma keys_obj_set:
  "set (Object_keys (obj_set c k v)) = insert k (set (Object_keys c))"
proof (cases "k \<in> set (map fst c)")
  case True
  then show ?thesis
    by (auto simp: Object_keys_def obj_set_def keys_replace)
next
  case False
  then show ?thesis
    by (cases "array_index k") (simp_all add: Object_keys_def obj_set_def keys_insert_index_image)
qed

lemma distinct_obj_set:
  "distinct (Object_keys c) \<Longrightarrow> distinct (Object_keys (obj_set c k v))"
proof (cases "k \<in> set (map fst c)")
  case True
  assume "distinct (Object_keys c)"
  with True show ?thesis
    by (simp add: Object_keys_def obj_set_def keys_replace)
next
  case False
  assume d: "distinct (Object_keys c)"
  show ?thesis
  proof (cases "array_index k")
    case None
    with False d show ?thesis by (simp add: Object_keys_def obj_set_def)
  next
    case (Some n)
    from False have "k \<notin> fst ` set c" by simp
    then have "distinct (map fst (insert_index n k v c))"
      using d unfolding Object_keys_def by (rule distinct_insert_index)
    with False Some show ?thesis by (simp add: Object_keys_def obj_set_def)
  qed
qed

lemma obj_set_same:
  "distinct (Object_keys c) \<Longrightarrow> map_of c k = Some v \<Longrightarrow> obj_set c k v = c"
proof -
  assume d: "distinct (Object_keys c)" and m: "map_of c k = Some v"
  from m have mem: "k \<in> set (map fst c)"
    by (metis domI dom_map_of_conv_image_fst set_map)
  have "\<forall>(k', v') \<in> set c. (if k' = k then (k', v) else (k', v')) = (k', v')"
    using d m unfolding Object_keys_def by (auto dest: map_of_SomeD eq_key_imp_eq_value)
  then have "map (\<lambda>(k', v'). if k' = k then (k', v) else (k', v')) c = c"
    by (induction c) auto
  with mem show ?thesis by (simp add: obj_set_def)
qed

lemma replace_id:
  "k \<notin> fst ` set c \<Longrightarrow> map (\<lambda>(k', v'). if k' = k then (k', v) else (k', v')) c = c"
  by (induction c) auto

lemma replace_insert_index:
  "k \<notin> fst ` set c \<Longrightarrow>
     map (\<lambda>(k', v'). if k' = k then (k', w) else (k', v')) (insert_index n k v c) =
       insert_index n k w c"
proof (induction c)
  case Nil
  then show ?case by simp
next
  case (Cons a c)
  obtain k' v' where a: "a = (k', v')" by (cases a)
  from Cons.prems a have ne: "k' \<noteq> k" and notin: "k \<notin> fst ` set c" by auto
  show ?case
  proof (cases "array_index k'")
    case None
    with a ne notin show ?thesis by (simp add: replace_id)
  next
    case (Some m)
    with a ne notin Cons.IH [OF notin] show ?thesis
      by (cases "m < n") (simp_all add: replace_id)
  qed
qed

lemma obj_set_obj_set: "obj_set (obj_set c k v) k w = obj_set c k w"
proof (cases "k \<in> fst ` set c")
  case True
  have in2: "k \<in> set (map fst (obj_set c k v))"
    using keys_obj_set [of c k v] by (simp add: Object_keys_def)
  have "map (\<lambda>(k', v'). if k' = k then (k', w) else (k', v'))
          (map (\<lambda>(k', v'). if k' = k then (k', v) else (k', v')) c) =
        map (\<lambda>(k', v'). if k' = k then (k', w) else (k', v')) c"
    by (induction c) auto
  with True show ?thesis by (simp add: obj_set_def keys_replace)
next
  case False
  have in2: "k \<in> set (map fst (obj_set c k v))"
    using keys_obj_set [of c k v] by (simp add: Object_keys_def)
  show ?thesis
  proof (cases "array_index k")
    case None
    with False show ?thesis by (simp add: obj_set_def replace_id)
  next
    case (Some n)
    have "obj_set c k v = insert_index n k v c"
      using False Some by (simp add: obj_set_def)
    moreover have "obj_set c k w = insert_index n k w c"
      using False Some by (simp add: obj_set_def)
    moreover have "obj_set (insert_index n k v c) k w =
        map (\<lambda>(k', v'). if k' = k then (k', w) else (k', v')) (insert_index n k v c)"
      by (simp add: obj_set_def keys_insert_index_image)
    ultimately show ?thesis using False by (simp add: replace_insert_index)
  qed
qed

lemma map_the_map_of:
  "distinct (map fst c) \<Longrightarrow> map (\<lambda>k. the (map_of c k)) (map fst c) = map snd c"
proof (induction c)
  case Nil
  then show ?case by simp
next
  case (Cons a c)
  obtain k v where a: "a = (k, v)" by (cases a)
  from Cons.prems a have notin: "k \<notin> fst ` set c" and d: "distinct (map fst c)" by auto
  have "map (\<lambda>x. the (map_of (a # c) (fst x))) c = map (\<lambda>x. the (map_of c (fst x))) c"
    using notin a by (intro map_cong) auto
  with Cons.IH [OF d] a show ?case by (simp add: comp_def)
qed

lemma obj_get_Own: "map_of c k = Some h \<Longrightarrow> obj_get c k = Own h"
  by (simp add: obj_get_def)

lemma forEach_call_keys:
  "\<forall>k \<in> set ks. k \<in> fst ` set c \<Longrightarrow>
   forEach_call raises f c ks log =
     (if list_all (\<lambda>h. \<not> raises (f h)) (map (\<lambda>k. the (map_of c k)) ks)
      then (None, log @ map f (map (\<lambda>k. the (map_of c k)) ks))
      else (Some OtherError,
            log @ map f (takeWhile (\<lambda>h. \<not> raises (f h)) (map (\<lambda>k. the (map_of c k)) ks))))"
proof (induction ks arbitrary: log)
  case Nil
  then show ?case by simp
next
  case (Cons k ks)
  from Cons.prems have "k \<in> fst ` set c" by simp
  then obtain h where h: "map_of c k = Some h"
    by (metis domD dom_map_of_conv_image_fst)
  from Cons.prems have rest: "\<forall>k \<in> set ks. k \<in> fst ` set c" by simp
  show ?case using Cons.IH [OF rest] h by (simp add: obj_get_Own)
qed

lemma forEach_call_obj:
  assumes "distinct (Object_keys c)"
  shows "forEach_call raises f c (Object_keys c) log =
     (if list_all (\<lambda>h. \<not> raises (f h)) (map snd c)
      then (None, log @ map f (map snd c))
      else (Some OtherError, log @ map f (takeWhile (\<lambda>h. \<not> raises (f h)) (map snd c))))"
proof -
  have mem: "\<forall>k \<in> set (Object_keys c). k \<in> fst ` set c" by (simp add: Object_keys_def)
  have hs: "map (\<lambda>k. the (map_of c k)) (Object_keys c) = map snd c"
    using assms unfolding Object_keys_def by (rule map_the_map_of)
  show ?thesis
    unfolding forEach_call_keys [OF mem, of raises f log] hs ..
qed

lemma arrived_store_upd:
  "arrived (s\<lparr>checkinStore := obj_set (checkinStore s) u c\<rparr>) v = (if v = u then c else arrived s v)"
  by (simp add: arrived_def map_of_obj_set)

section \<open>Facts about the request handler\<close>

lemma arrived_sent_upd [simp]: "arrived (s\<lparr>sent := l\<rparr>) v = arrived s v"
  by (simp add: arrived_def)

lemma try_body_not_post:
  "req_method req \<noteq> ''POST'' \<Longrightarrow>
     try_body raises expected req res s = (Some (HttpError 405 None), s)"
  by (simp add: try_body_def new_HttpError_def)

lemma try_body_unknown_url:
  "req_method req = ''POST'' \<Longrightarrow> map_of expected (req_url req) = None \<Longrightarrow>
     try_body raises expected req res s = (Some (HttpError 404 None), s)"
  by (simp add: try_body_def new_HttpError_def)

lemma try_body_unrecognized:
  "req_method req = ''POST'' \<Longrightarrow> map_of expected (req_url req) = Some ids \<Longrightarrow>
   indexOf ids (req_id req) = - 1 \<Longrightarrow>
     try_body raises expected req res s =
       (Some (HttpError 400 (Some (unrecognized_msg (req_id req)))), s)"
  by (simp add: try_body_def new_HttpError_def)

lemma try_body_valid:
  assumes "req_method req = ''POST''" and "map_of expected (req_url req) = Some ids"
    and "req_id req = QStr i" and "i \<in> set ids"
  shows "try_body raises expected req res s =
     (if obj_get (arrived s (req_url req)) i \<noteq> Undefined
      then (Some (HttpError 400 (Some (duplicate_msg (QStr i)))),
            s\<lparr>checkinStore := obj_set (checkinStore s) (req_url req) (arrived s (req_url req))\<rparr>)
      else if raises (WriteHead res 200)
      then (Some OtherError,
            s\<lparr>checkinStore := obj_set (checkinStore s) (req_url req) (arrived s (req_url req))\<rparr>)
      else if allCheckedIn ids (obj_set (arrived s (req_url req)) i res)
      then (case forEach_call raises (\<lambda>h. End h (Some GO))
                   (obj_set (arrived s (req_url req)) i res)
                   (Object_keys (obj_set (arrived s (req_url req)) i res))
                   (sent s @ [WriteHead res 200]) of
              (None, log) \<Rightarrow>
                (None, s\<lparr>checkinStore := obj_set (checkinStore s) (req_url req) [], sent := log\<rparr>)
            | (Some e, log) \<Rightarrow>
                (Some e, s\<lparr>checkinStore := obj_set (checkinStore s) (req_url req)
                                (obj_set (arrived s (req_url req)) i res),
                            sent := log\<rparr>))
      else (None, s\<lparr>checkinStore := obj_set (checkinStore s) (req_url req)
                        (obj_set (arrived s (req_url req)) i res),
                    sent := sent s @ [WriteHead res 200]\<rparr>))"
proof -
  have "indexOf ids (QStr i) \<noteq> - 1"
    using assms(4) by (simp add: indexOf_minus1_iff)
  then show ?thesis
    using assms(1,2,3)
    by (simp add: try_body_def new_HttpError_def Let_def obj_set_obj_set
        split: prod.splits option.splits)
qed

lemma indexOf_found:
  "indexOf ids v \<noteq> - 1 \<Longrightarrow> \<exists>i. v = QStr i \<and> i \<in> set ids"
  by (simp add: indexOf_minus1_iff)

text \<open>What a check-in can do to the arrived maps.\<close>

lemma try_body_arrived:
  assumes "try_body raises expected req res s = (e, s')"
  shows "(\<forall>v. arrived s' v = arrived s v) \<or>
     (\<exists>ids i. map_of expected (req_url req) = Some ids \<and> req_id req = QStr i \<and> i \<in> set ids \<and>
        req_method req = ''POST'' \<and>
        obj_get (arrived s (req_url req)) i = Undefined \<and>
        (\<forall>v. v \<noteq> req_url req \<longrightarrow> arrived s' v = arrived s v) \<and>
        (arrived s' (req_url req) = obj_set (arrived s (req_url req)) i res \<or>
         arrived s' (req_url req) = []))"
proof (cases "req_method req = ''POST''")
  case False
  with assms show ?thesis by (simp add: try_body_not_post)
next
  case post: True
  show ?thesis
  proof (cases "map_of expected (req_url req)")
    case None
    with post assms show ?thesis by (simp add: try_body_unknown_url)
  next
    case (Some ids)
    show ?thesis
    proof (cases "indexOf ids (req_id req) = - 1")
      case True
      with post Some assms show ?thesis by (simp add: try_body_unrecognized)
    next
      case False
      then obtain i where i: "req_id req = QStr i" "i \<in> set ids"
        using indexOf_found by blast
      note valid = try_body_valid [OF post Some i, of raises res s]
      show ?thesis
      proof (cases "obj_get (arrived s (req_url req)) i = Undefined")
        case False
        with valid assms have "s' = s\<lparr>checkinStore :=
            obj_set (checkinStore s) (req_url req) (arrived s (req_url req))\<rparr>"
          by simp
        then have "\<forall>v. arrived s' v = arrived s v"
          by (simp add: arrived_store_upd)
        then show ?thesis ..
      next
        case undef: True
        show ?thesis
        proof (cases "raises (WriteHead res 200)")
          case True
          with undef valid assms have "s' = s\<lparr>checkinStore :=
              obj_set (checkinStore s) (req_url req) (arrived s (req_url req))\<rparr>"
            by simp
          then have "\<forall>v. arrived s' v = arrived s v"
            by (simp add: arrived_store_upd)
          then show ?thesis ..
        next
          case False
          with undef valid assms
          have "(\<forall>v. v \<noteq> req_url req \<longrightarrow> arrived s' v = arrived s v) \<and>
            (arrived s' (req_url req) = obj_set (arrived s (req_url req)) i res \<or>
             arrived s' (req_url req) = [])"
            by (auto simp: arrived_store_upd split: if_splits prod.splits option.splits)
          with post Some i undef show ?thesis by blast
        qed
      qed
    qed
  qed
qed

lemma on_end_arrived_eq:
  "arrived (snd (on_end raises expected req res s)) v =
     arrived (snd (try_body raises expected req res s)) v"
  by (simp add: on_end_def split: prod.splits option.splits exn.splits)

lemma tick_arrived: "arrived (snd (tick raises s)) v = arrived s v"
  by (simp add: tick_def split: prod.splits option.splits)

lemma obj_get_Undefined:
  "obj_get c k = Undefined \<longleftrightarrow> k \<notin> set (Object_keys c) \<and> k \<notin> set Object_prototype"
proof -
  have "map_of c k = None \<longleftrightarrow> k \<notin> set (Object_keys c)"
    by (simp add: Object_keys_def map_of_eq_None_iff)
  then show ?thesis by (auto simp: obj_get_def split: option.splits)
qed

lemma arrived_inv_init: "arrived_inv expected init"
  by (simp add: arrived_inv_def init_def arrived_def Object_keys_def)

lemma arrived_inv_try_body:
  assumes inv: "arrived_inv expected s"
    and tb: "try_body raises expected req res s = (e, s')"
  shows "arrived_inv expected s'"
proof -
  from try_body_arrived [OF tb] show ?thesis
  proof
    assume "\<forall>v. arrived s' v = arrived s v"
    with inv show ?thesis by (simp add: arrived_inv_def)
  next
    assume "\<exists>ids i. map_of expected (req_url req) = Some ids \<and> req_id req = QStr i \<and>
        i \<in> set ids \<and> req_method req = ''POST'' \<and>
        obj_get (arrived s (req_url req)) i = Undefined \<and>
        (\<forall>v. v \<noteq> req_url req \<longrightarrow> arrived s' v = arrived s v) \<and>
        (arrived s' (req_url req) = obj_set (arrived s (req_url req)) i res \<or>
         arrived s' (req_url req) = [])"
    then obtain ids i where ex: "map_of expected (req_url req) = Some ids" "i \<in> set ids"
      and undef: "obj_get (arrived s (req_url req)) i = Undefined"
      and other: "\<forall>v. v \<noteq> req_url req \<longrightarrow> arrived s' v = arrived s v"
      and here: "arrived s' (req_url req) = obj_set (arrived s (req_url req)) i res \<or>
         arrived s' (req_url req) = []"
      by blast
    from inv have old: "distinct (Object_keys (arrived s (req_url req)))"
      "set (Object_keys (arrived s (req_url req))) \<subseteq>
         expected_set expected (req_url req) - set Object_prototype"
      by (simp_all add: arrived_inv_def)
    from undef have fresh: "i \<notin> set Object_prototype" by (simp add: obj_get_Undefined)
    have new: "distinct (Object_keys (arrived s' (req_url req))) \<and>
      set (Object_keys (arrived s' (req_url req))) \<subseteq>
         expected_set expected (req_url req) - set Object_prototype"
      using here
    proof
      assume a: "arrived s' (req_url req) = obj_set (arrived s (req_url req)) i res"
      show ?thesis
        using old ex fresh unfolding a
        by (auto simp: distinct_obj_set keys_obj_set expected_set_def)
    next
      assume "arrived s' (req_url req) = []"
      then show ?thesis by (simp add: Object_keys_def)
    qed
    show ?thesis
      unfolding arrived_inv_def
    proof
      fix u
      show "distinct (Object_keys (arrived s' u)) \<and>
        set (Object_keys (arrived s' u)) \<subseteq> expected_set expected u - set Object_prototype"
      proof (cases "u = req_url req")
        case True
        with new show ?thesis by simp
      next
        case False
        with other have "arrived s' u = arrived s u" by simp
        with inv show ?thesis by (simp add: arrived_inv_def)
      qed
    qed
  qed
qed

lemma arrived_inv_cong:
  "arrived_inv expected s \<Longrightarrow> \<forall>v. arrived s' v = arrived s v \<Longrightarrow> arrived_inv expected s'"
  by (simp add: arrived_inv_def)

lemma arrived_inv_on_end:
  assumes "arrived_inv expected s"
  shows "arrived_inv expected (snd (on_end raises expected req res s))"
proof -
  obtain e s' where tb: "try_body raises expected req res s = (e, s')"
    by (cases "try_body raises expected req res s")
  have "arrived_inv expected s'" using assms tb by (rule arrived_inv_try_body)
  moreover have "\<forall>v. arrived (snd (on_end raises expected req res s)) v = arrived s' v"
    using tb by (simp add: on_end_arrived_eq)
  ultimately show ?thesis by (rule arrived_inv_cong)
qed

lemma arrived_inv_step:
  assumes "arrived_inv expected s"
  shows "arrived_inv expected (snd (step raises expected ev s))"
proof (cases ev)
  case (RequestEnd req res)
  with assms show ?thesis by (simp add: arrived_inv_on_end)
next
  case Interval
  have "\<forall>v. arrived (snd (tick raises s)) v = arrived s v" by (simp add: tick_arrived)
  with assms have "arrived_inv expected (snd (tick raises s))" by (rule arrived_inv_cong)
  with Interval show ?thesis by simp
next
  case (Close h)
  with assms show ?thesis by simp
qed

lemma arrived_inv_run:
  "arrived_inv expected s \<Longrightarrow> run expected evs s = Some s' \<Longrightarrow> arrived_inv expected s'"
proof (induction evs arbitrary: s)
  case Nil
  then show ?case by simp
next
  case (Cons a evs)
  obtain raises ev where a: "a = (raises, ev)" by (cases a)
  obtain out s1 where st: "step raises expected ev s = (out, s1)"
    by (cases "step raises expected ev s")
  from Cons.prems(2) a st have out: "out = Returned" and rest: "run expected evs s1 = Some s'"
    by (auto split: outcome.splits)
  have "arrived_inv expected s1"
    using arrived_inv_step [OF Cons.prems(1), of raises ev] st by simp
  then show ?case using rest by (rule Cons.IH)
qed

lemma reachable_inv: "run expected evs init = Some s \<Longrightarrow> arrived_inv expected s"
  using arrived_inv_init by (rule arrived_inv_run)

lemma on_end_accepted:
  "try_body raises expected req res s = (None, s') \<Longrightarrow>
     on_end raises expected req res s = (Returned, s')"
  by (simp add: on_end_def)

lemma on_end_HttpError:
  "try_body raises expected req res s = (Some (HttpError code m), s') \<Longrightarrow>
     on_end raises expected req res s =
       (if raises (End res m) then (Uncaught, s'\<lparr>sent := sent s' @ [StatusCode res code]\<rparr>)
        else (Returned, s'\<lparr>sent := sent s' @ [StatusCode res code, End res m]\<rparr>))"
  by (simp add: on_end_def)

lemma on_end_OtherError:
  "try_body raises expected req res s = (Some OtherError, s') \<Longrightarrow>
     on_end raises expected req res s = (Uncaught, s')"
  by (simp add: on_end_def)

text \<open>The urls of \<^verbatim>\<open>checkinStore\<close> stay distinct.\<close>

lemma store_distinct_try_body:
  assumes "distinct (Object_keys (checkinStore s))"
  shows "distinct (Object_keys (checkinStore (snd (try_body raises expected req res s))))"
proof -
  have a: "distinct (Object_keys (obj_set (checkinStore s) u c))" for u c
    using assms by (rule distinct_obj_set)
  have b: "distinct (Object_keys (obj_set (obj_set (checkinStore s) u c) u' c'))" for u c u' c'
    using a by (rule distinct_obj_set)
  have c: "distinct (Object_keys (obj_set (obj_set (obj_set (checkinStore s) u c) u' c') u'' c''))"
    for u c u' c' u'' c''
    using b by (rule distinct_obj_set)
  show ?thesis
    using assms a b c
    by (simp add: try_body_def Let_def split: option.splits prod.splits)
qed

lemma store_on_end:
  "checkinStore (snd (on_end raises expected req res s)) =
     checkinStore (snd (try_body raises expected req res s))"
  by (simp add: on_end_def split: prod.splits option.splits exn.splits)

lemma store_tick: "checkinStore (snd (tick raises s)) = checkinStore s"
  by (simp add: tick_def split: prod.splits option.splits)

lemma store_distinct_step:
  assumes "distinct (Object_keys (checkinStore s))"
  shows "distinct (Object_keys (checkinStore (snd (step raises expected ev s))))"
proof (cases ev)
  case (RequestEnd req res)
  with assms show ?thesis by (simp add: store_on_end store_distinct_try_body)
next
  case Interval
  with assms show ?thesis by (simp add: store_tick)
next
  case (Close h)
  with assms show ?thesis by simp
qed

lemma store_distinct_run:
  "distinct (Object_keys (checkinStore s)) \<Longrightarrow> run expected evs s = Some s' \<Longrightarrow>
     distinct (Object_keys (checkinStore s'))"
proof (induction evs arbitrary: s)
  case Nil
  then show ?case by simp
next
  case (Cons a evs)
  obtain raises ev where a: "a = (raises, ev)" by (cases a)
  obtain out s1 where st: "step raises expected ev s = (out, s1)"
    by (cases "step raises expected ev s")
  from Cons.prems(2) a st have rest: "run expected evs s1 = Some s'"
    by (auto split: outcome.splits)
  have "distinct (Object_keys (checkinStore s1))"
    using store_distinct_step [OF Cons.prems(1), of raises expected ev] st by simp
  then show ?case using rest by (rule Cons.IH)
qed

lemma reachable_store_distinct:
  "run expected evs init = Some s \<Longrightarrow> distinct (Object_keys (checkinStore s))"
proof -
  have "distinct (Object_keys (checkinStore init))" by (simp add: init_def Object_keys_def)
  then show "run expected evs init = Some s \<Longrightarrow> distinct (Object_keys (checkinStore s))"
    by (rule store_distinct_run)
qed

text \<open>A check-in that passes both checks and finds every expected id checked in.\<close>

lemma try_body_complete:
  assumes "req_method req = ''POST''" and "map_of expected (req_url req) = Some ids"
    and "req_id req = QStr i" and "i \<in> set ids"
    and "obj_get (arrived s (req_url req)) i = Undefined"
    and "\<not> raises (WriteHead res 200)"
    and "allCheckedIn ids (obj_set (arrived s (req_url req)) i res)"
    and "distinct (Object_keys (arrived s (req_url req)))"
  shows "try_body raises expected req res s =
     (if list_all (\<lambda>h. \<not> raises (End h (Some GO))) (map snd (obj_set (arrived s (req_url req)) i res))
      then (None, s\<lparr>checkinStore := obj_set (checkinStore s) (req_url req) [],
                     sent := sent s @ WriteHead res 200 #
                       map (\<lambda>h. End h (Some GO)) (map snd (obj_set (arrived s (req_url req)) i res))\<rparr>)
      else (Some OtherError,
            s\<lparr>checkinStore := obj_set (checkinStore s) (req_url req)
                  (obj_set (arrived s (req_url req)) i res),
              sent := sent s @ WriteHead res 200 #
                map (\<lambda>h. End h (Some GO))
                  (takeWhile (\<lambda>h. \<not> raises (End h (Some GO)))
                     (map snd (obj_set (arrived s (req_url req)) i res)))\<rparr>))"
proof -
  have d: "distinct (Object_keys (obj_set (arrived s (req_url req)) i res))"
    using assms(8) by (rule distinct_obj_set)
  show ?thesis
    unfolding try_body_valid [OF assms(1-4)] forEach_call_obj [OF d]
    using assms(5-7) by simp
qed

lemma try_body_held:
  assumes "req_method req = ''POST''" and "map_of expected (req_url req) = Some ids"
    and "req_id req = QStr i" and "i \<in> set ids"
    and "obj_get (arrived s (req_url req)) i = Undefined"
    and "\<not> raises (WriteHead res 200)"
    and "\<not> allCheckedIn ids (obj_set (arrived s (req_url req)) i res)"
  shows "try_body raises expected req res s =
     (None, s\<lparr>checkinStore := obj_set (checkinStore s) (req_url req)
                  (obj_set (arrived s (req_url req)) i res),
               sent := sent s @ [WriteHead res 200]\<rparr>)"
  unfolding try_body_valid [OF assms(1-4)] using assms(5-7) by simp

lemma try_body_duplicate:
  assumes "req_method req = ''POST''" and "map_of expected (req_url req) = Some ids"
    and "req_id req = QStr i" and "i \<in> set ids"
    and "obj_get (arrived s (req_url req)) i \<noteq> Undefined"
  shows "try_body raises expected req res s =
     (Some (HttpError 400 (Some (duplicate_msg (QStr i)))),
      s\<lparr>checkinStore := obj_set (checkinStore s) (req_url req) (arrived s (req_url req))\<rparr>)"
  unfolding try_body_valid [OF assms(1-4)] using assms(5) by simp

lemma allCheckedIn_iff:
  "allCheckedIn ids c \<longleftrightarrow> set ids - set Object_prototype \<subseteq> set (Object_keys c)"
  by (auto simp: allCheckedIn_def list_ex_iff obj_get_Undefined)

lemma handles_of_distinct:
  "distinct (Object_keys c) \<Longrightarrow> map_of c i = Some h \<Longrightarrow> handles_of c i = [h]"
proof (induction c)
  case Nil
  then show ?case by simp
next
  case (Cons a c)
  obtain k v where a: "a = (k, v)" by (cases a)
  from Cons.prems(1) a have notin: "k \<notin> fst ` set c" and d: "distinct (Object_keys c)"
    by (auto simp: Object_keys_def)
  show ?case
  proof (cases "k = i")
    case True
    with notin have "filter (\<lambda>(k, h). k = i) c = []"
      by (force simp: filter_empty_conv)
    with True a Cons.prems(2) show ?thesis by (simp add: handles_of_def)
  next
    case False
    with a Cons.prems(2) have "map_of c i = Some h" by simp
    with d have "handles_of c i = [h]" by (rule Cons.IH)
    with False a show ?thesis by (simp add: handles_of_def)
  qed
qed

lemma arrived_Some_store:
  "map_of (arrived s u) i = Some h \<Longrightarrow> map_of (checkinStore s) u = Some (arrived s u)"
  by (cases "map_of (checkinStore s) u") (simp_all add: arrived_def)

lemma arrived_inv_within:
  assumes "arrived_inv expected s"
  shows "arrived_within expected s u"
proof -
  from assms have d: "distinct (Object_keys (arrived s u))"
    and sub: "set (Object_keys (arrived s u)) \<subseteq> expected_set expected u"
    by (auto simp: arrived_inv_def)
  have fin: "finite (expected_set expected u)"
    by (simp add: expected_set_def split: option.splits)
  have "card (set (Object_keys (arrived s u))) = length (Object_keys (arrived s u))"
    using d by (rule distinct_card)
  then have "length (arrived s u) = card (set (Object_keys (arrived s u)))"
    by (simp add: Object_keys_def)
  also have "\<dots> \<le> card (expected_set expected u)"
    using fin sub by (rule card_mono)
  finally show ?thesis using sub by (simp add: arrived_within_def)
qed

lemma complete_of_last:
  assumes "insert i (set (Object_keys c)) = set ids"
  shows "allCheckedIn ids (obj_set c i res)"
  using assms by (auto simp: allCheckedIn_iff keys_obj_set)

lemma mset_insert_index: "mset (insert_index n k v c) = add_mset (k, v) (mset c)"
proof (induction c)
  case Nil
  then show ?case by simp
next
  case (Cons a c)
  obtain k' v' where a: "a = (k', v')" by (cases a)
  show ?case
  proof (cases "array_index k'")
    case None
    with a show ?thesis by simp
  next
    case (Some m)
    with a Cons.IH show ?thesis by (cases "m < n") simp_all
  qed
qed

lemma mset_obj_set_new:
  "k \<notin> set (Object_keys c) \<Longrightarrow> mset (obj_set c k v) = add_mset (k, v) (mset c)"
  by (cases "array_index k") (simp_all add: obj_set_def Object_keys_def mset_insert_index)

lemma set_obj_set_new:
  assumes "k \<notin> set (Object_keys c)"
  shows "set (obj_set c k v) = insert (k, v) (set c)"
proof -
  have "set_mset (mset (obj_set c k v)) = set_mset (add_mset (k, v) (mset c))"
    using mset_obj_set_new [OF assms] by simp
  then show ?thesis by simp
qed

lemma map_of_key: "map_of c k = Some h \<Longrightarrow> k \<in> set (Object_keys c)"
  by (auto simp: Object_keys_def dest: map_of_SomeD intro: rev_image_eqI)

lemma run_append:
  "run expected (xs @ ys) s =
     (case run expected xs s of None \<Rightarrow> None | Some s' \<Rightarrow> run expected ys s')"
proof (induction xs arbitrary: s)
  case Nil
  then show ?case by simp
next
  case (Cons a xs)
  obtain raises ev where a: "a = (raises, ev)" by (cases a)
  obtain out s1 where st: "step raises expected ev s = (out, s1)"
    by (cases "step raises expected ev s")
  show ?case using a st Cons.IH [of s1] by (cases out) simp_all
qed

lemma try_post_held:
  assumes "map_of expected u = Some ids" and "k \<in> set ids"
    and "obj_get (arrived s u) k = Undefined"
    and "\<not> allCheckedIn ids (obj_set (arrived s u) k h)"
  shows "try_body quiet expected (post u k) h s =
     (None, s\<lparr>checkinStore := obj_set (checkinStore s) u (obj_set (arrived s u) k h),
                   sent := sent s @ [WriteHead h 200]\<rparr>)"
proof -
  have a: "req_method (post u k) = ''POST''" by (simp add: post_def)
  have b: "map_of expected (req_url (post u k)) = Some ids" using assms(1) by (simp add: post_def)
  have c: "req_id (post u k) = QStr k" by (simp add: post_def)
  have d: "obj_get (arrived s (req_url (post u k))) k = Undefined"
    using assms(3) by (simp add: post_def)
  have e: "\<not> quiet (WriteHead h 200)" by (simp add: quiet_def)
  have f: "\<not> allCheckedIn ids (obj_set (arrived s (req_url (post u k))) k h)"
    using assms(4) by (simp add: post_def)
  have u: "req_url (post u k) = u" by (simp add: post_def)
  from try_body_held [where raises = quiet and res = h, OF a b c assms(2) d e f]
  show ?thesis by (simp add: u)
qed

lemma step_post_held:
  assumes "map_of expected u = Some ids" and "k \<in> set ids"
    and "obj_get (arrived s u) k = Undefined"
    and "\<not> allCheckedIn ids (obj_set (arrived s u) k h)"
  shows "step quiet expected (RequestEnd (post u k) h) s =
     (Returned, s\<lparr>checkinStore := obj_set (checkinStore s) u (obj_set (arrived s u) k h),
                   sent := sent s @ [WriteHead h 200]\<rparr>)"
  using try_post_held [OF assms] by (simp add: on_end_accepted)

lemma list_all_quiet: "list_all (\<lambda>h. \<not> quiet (f h)) hs"
  by (simp add: quiet_def list_all_iff)

lemma try_post_complete:
  assumes "map_of expected u = Some ids" and "k \<in> set ids"
    and "obj_get (arrived s u) k = Undefined"
    and "allCheckedIn ids (obj_set (arrived s u) k h)"
    and "distinct (Object_keys (arrived s u))"
  shows "try_body quiet expected (post u k) h s =
     (None, s\<lparr>checkinStore := obj_set (checkinStore s) u [],
                   sent := sent s @ WriteHead h 200 #
                     map (\<lambda>h. End h (Some GO)) (map snd (obj_set (arrived s u) k h))\<rparr>)"
proof -
  have a: "req_method (post u k) = ''POST''" by (simp add: post_def)
  have b: "map_of expected (req_url (post u k)) = Some ids" using assms(1) by (simp add: post_def)
  have c: "req_id (post u k) = QStr k" by (simp add: post_def)
  have d: "obj_get (arrived s (req_url (post u k))) k = Undefined"
    using assms(3) by (simp add: post_def)
  have e: "\<not> quiet (WriteHead h 200)" by (simp add: quiet_def)
  have f: "allCheckedIn ids (obj_set (arrived s (req_url (post u k))) k h)"
    using assms(4) by (simp add: post_def)
  have g: "distinct (Object_keys (arrived s (req_url (post u k))))"
    using assms(5) by (simp add: post_def)
  have u: "req_url (post u k) = u" by (simp add: post_def)
  from try_body_complete [where raises = quiet and res = h, OF a b c assms(2) d e f g]
  show ?thesis by (simp add: u list_all_quiet)
qed

lemma step_post_complete:
  assumes "map_of expected u = Some ids" and "k \<in> set ids"
    and "obj_get (arrived s u) k = Undefined"
    and "allCheckedIn ids (obj_set (arrived s u) k h)"
    and "distinct (Object_keys (arrived s u))"
  shows "step quiet expected (RequestEnd (post u k) h) s =
     (Returned, s\<lparr>checkinStore := obj_set (checkinStore s) u [],
                   sent := sent s @ WriteHead h 200 #
                     map (\<lambda>h. End h (Some GO)) (map snd (obj_set (arrived s u) k h))\<rparr>)"
  using try_post_complete [OF assms] by (simp add: on_end_accepted)

lemma mset_ends_obj_set:
  assumes "k \<notin> set (Object_keys c)"
  shows "mset (map f (map snd (obj_set c k h))) = add_mset (f h) (mset (map f (map snd c)))"
  using mset_obj_set_new [OF assms, of h] by simp

text \<open>
  A round: from a state where some ids of a group are held, the other ids that can check
  in arrive one by one, in any order; the last arrival releases everyone.
\<close>

lemma run_round:
  assumes "arrived_inv expected s" and "map_of expected u = Some ids"
    and "r \<noteq> []" and "distinct (map fst r)"
    and "set (map fst r) \<inter> set (Object_keys (arrived s u)) = {}"
    and "set (Object_keys (arrived s u)) \<union> set (map fst r) = set ids - set Object_prototype"
  shows "\<exists>s'. run expected (checkins_of u r) s = Some s' \<and> arrived s' u = [] \<and>
     (\<forall>v. v \<noteq> u \<longrightarrow> arrived s' v = arrived s v) \<and>
     mset (sent s') = mset (sent s) + mset (map (\<lambda>h. WriteHead h 200) (map snd r)) +
       mset (map (\<lambda>h. End h (Some GO)) (map snd (arrived s u @ r)))"
  using assms
proof (induction r arbitrary: s)
  case Nil
  then show ?case by simp
next
  case (Cons a r)
  obtain k h where a: "a = (k, h)" by (cases a)
  note inv = Cons.prems(1) and grp = Cons.prems(2)
  from Cons.prems(6) a have k_ids: "k \<in> set ids" and k_proto: "k \<notin> set Object_prototype"
    by auto
  from Cons.prems(5) a have k_new: "k \<notin> set (Object_keys (arrived s u))" by auto
  have undef: "obj_get (arrived s u) k = Undefined"
    using k_new k_proto by (simp add: obj_get_Undefined)
  have d: "distinct (Object_keys (arrived s u))" using inv by (simp add: arrived_inv_def)
  have keys': "set (Object_keys (obj_set (arrived s u) k h)) =
      insert k (set (Object_keys (arrived s u)))"
    by (rule keys_obj_set)
  show ?case
  proof (cases "r = []")
    case True
    have all: "allCheckedIn ids (obj_set (arrived s u) k h)"
      using Cons.prems(6) a True by (auto simp: allCheckedIn_iff keys')
    note st = step_post_complete [OF grp k_ids undef all d]
    let ?s' = "s\<lparr>checkinStore := obj_set (checkinStore s) u [],
                   sent := sent s @ WriteHead h 200 #
                     map (\<lambda>h. End h (Some GO)) (map snd (obj_set (arrived s u) k h))\<rparr>"
    have "run expected (checkins_of u (a # r)) s = Some ?s'"
      using st a True by (simp add: checkins_of_def)
    moreover have "arrived ?s' u = []" by (simp add: arrived_store_upd)
    moreover have "\<forall>v. v \<noteq> u \<longrightarrow> arrived ?s' v = arrived s v"
      by (simp add: arrived_store_upd)
    moreover have "mset (sent ?s') = mset (sent s) + mset (map (\<lambda>h. WriteHead h 200) (map snd (a # r))) +
       mset (map (\<lambda>h. End h (Some GO)) (map snd (arrived s u @ a # r)))"
      using a True mset_ends_obj_set [OF k_new, of "\<lambda>h. End h (Some GO)" h] by simp
    ultimately show ?thesis by blast
  next
    case False
    then obtain k' where k': "k' \<in> set (map fst r)" by (cases r) auto
    from Cons.prems(4) a k' have "k' \<noteq> k" by auto
    moreover from Cons.prems(5) k' have "k' \<notin> set (Object_keys (arrived s u))" by auto
    moreover from Cons.prems(6) k' have "k' \<in> set ids - set Object_prototype" by auto
    ultimately have notall: "\<not> allCheckedIn ids (obj_set (arrived s u) k h)"
      by (auto simp: allCheckedIn_iff keys')
    note st = step_post_held [OF grp k_ids undef notall]
    let ?s2 = "s\<lparr>checkinStore := obj_set (checkinStore s) u (obj_set (arrived s u) k h),
                   sent := sent s @ [WriteHead h 200]\<rparr>"
    have inv2: "arrived_inv expected ?s2"
      using arrived_inv_step [OF inv, of quiet "RequestEnd (post u k) h"] st by simp
    have arr2: "arrived ?s2 u = obj_set (arrived s u) k h" by (simp add: arrived_store_upd)
    have p4: "distinct (map fst r)" using Cons.prems(4) by simp
    have p5: "set (map fst r) \<inter> set (Object_keys (arrived ?s2 u)) = {}"
      using Cons.prems(4,5) a unfolding arr2 keys' by auto
    have p6: "set (Object_keys (arrived ?s2 u)) \<union> set (map fst r) =
        set ids - set Object_prototype"
      using Cons.prems(6) a unfolding arr2 keys' by auto
    from Cons.IH [OF inv2 grp False p4 p5 p6]
    obtain s' where run': "run expected (checkins_of u r) ?s2 = Some s'"
      and empty: "arrived s' u = []"
      and other: "\<forall>v. v \<noteq> u \<longrightarrow> arrived s' v = arrived ?s2 v"
      and calls: "mset (sent s') = mset (sent ?s2) + mset (map (\<lambda>h. WriteHead h 200) (map snd r)) +
         mset (map (\<lambda>h. End h (Some GO)) (map snd (arrived ?s2 u @ r)))"
      by blast
    have "run expected (checkins_of u (a # r)) s = Some s'"
      using st a run' by (simp add: checkins_of_def)
    moreover have "\<forall>v. v \<noteq> u \<longrightarrow> arrived s' v = arrived s v"
      using other by (simp add: arrived_store_upd)
    moreover have "mset (sent s') = mset (sent s) +
        mset (map (\<lambda>h. WriteHead h 200) (map snd (a # r))) +
        mset (map (\<lambda>h. End h (Some GO)) (map snd (arrived s u @ a # r)))"
      using calls a mset_ends_obj_set [OF k_new, of "\<lambda>h. End h (Some GO)" h]
      unfolding arr2 by simp
    ultimately show ?thesis using empty by blast
  qed
qed

text \<open>Any number of rounds, one after the other, from a state where the group is empty.\<close>

lemma run_rounds:
  assumes "arrived_inv expected s" and "map_of expected u = Some ids"
    and "arrived s u = []"
    and "set ids - set Object_prototype \<noteq> {}"
    and "\<forall>r \<in> set rs. distinct (map fst r) \<and> set (map fst r) = set ids - set Object_prototype"
  shows "\<exists>s'. run expected (concat (map (checkins_of u) rs)) s = Some s' \<and> arrived s' u = [] \<and>
     mset (sent s') = mset (sent s) + mset (concat (map round_calls rs))"
  using assms
proof (induction rs arbitrary: s)
  case Nil
  then show ?case by simp
next
  case (Cons r rs)
  note inv = Cons.prems(1) and grp = Cons.prems(2) and empty = Cons.prems(3)
  from Cons.prems(5) have dr: "distinct (map fst r)"
    and sr: "set (map fst r) = set ids - set Object_prototype" by auto
  from sr Cons.prems(4) have ne: "r \<noteq> []" by auto
  have p5: "set (map fst r) \<inter> set (Object_keys (arrived s u)) = {}"
    using empty by (simp add: Object_keys_def)
  have p6: "set (Object_keys (arrived s u)) \<union> set (map fst r) = set ids - set Object_prototype"
    using empty sr by (simp add: Object_keys_def)
  from run_round [OF inv grp ne dr p5 p6]
  obtain s1 where run1: "run expected (checkins_of u r) s = Some s1"
    and empty1: "arrived s1 u = []"
    and calls1: "mset (sent s1) = mset (sent s) + mset (map (\<lambda>h. WriteHead h 200) (map snd r)) +
       mset (map (\<lambda>h. End h (Some GO)) (map snd (arrived s u @ r)))"
    by blast
  have inv1: "arrived_inv expected s1" using inv run1 by (rule arrived_inv_run)
  have rest: "\<forall>r \<in> set rs. distinct (map fst r) \<and> set (map fst r) = set ids - set Object_prototype"
    using Cons.prems(5) by simp
  from Cons.IH [OF inv1 grp empty1 Cons.prems(4) rest]
  obtain s' where run': "run expected (concat (map (checkins_of u) rs)) s1 = Some s'"
    and empty': "arrived s' u = []"
    and calls': "mset (sent s') = mset (sent s1) + mset (concat (map round_calls rs))"
    by blast
  have "run expected (concat (map (checkins_of u) (r # rs))) s = Some s'"
    using run1 run' by (simp add: run_append)
  moreover have "mset (sent s') = mset (sent s) + mset (concat (map round_calls (r # rs)))"
    using calls1 calls' empty by (simp add: round_calls_def)
  ultimately show ?case using empty' by blast
qed

section \<open>The example states\<close>

lemmas example_defs =
  ex_expected_def ex_held_def ex_released_def raises_end1_def quiet_def post_def init_def
  ex_single_def ex_inherited_def ex_alone_released_def

lemmas eval_defs =
  on_end_def try_body_def new_HttpError_def arrived_def obj_set_def obj_get_def
  Object_prototype_def allCheckedIn_def array_index_def digit_def Object_keys_def
  tick_def unrecognized_msg_def duplicate_msg_def

lemma ex_held_reachable:
  "run ex_expected [(quiet, RequestEnd (post ''/'' ''h1'') 1)] init = Some ex_held"
  by (simp add: example_defs eval_defs)

lemma ex_released_reachable:
  "run ex_expected [(quiet, RequestEnd (post ''/'' ''h1'') 1),
                    (quiet, RequestEnd (post ''/'' ''h2'') 2)] init = Some ex_released"
  by (simp add: example_defs eval_defs)

section \<open>The properties\<close>

text \<open>
  C1. In a state the server can reach, let a check-in be accepted (the \<^verbatim>\<open>try\<close> block
  ends without an exception) whose id was the one expected id of its group with no entry
  in the arrived map. Then the listener returns, and the calls it has made are
  \<^verbatim>\<open>writeHead(200)\<close> on the new response object followed by one \<^verbatim>\<open>end('GO\r\n')\<close>
  for each entry of the arrived map, the new one included, all with the same text; and the
  arrived map of the group is empty afterwards.
\<close>

theorem C1_last_checkin_releases_all:
  assumes reach: "run expected evs init = Some s"
    and post: "req_method req = ''POST''"
    and grp: "map_of expected (req_url req) = Some ids"
    and pid: "req_id req = QStr i"
    and new: "i \<notin> set (Object_keys (arrived s (req_url req)))"
    and last: "insert i (set (Object_keys (arrived s (req_url req)))) = set ids"
    and ok: "fst (try_body raises expected req res s) = None"
  shows "on_end raises expected req res s =
      (Returned,
       s\<lparr>checkinStore := obj_set (checkinStore s) (req_url req) [],
         sent := sent s @ WriteHead res 200 #
           map (\<lambda>h. End h (Some GO)) (map snd (obj_set (arrived s (req_url req)) i res))\<rparr>) \<and>
    arrived (snd (on_end raises expected req res s)) (req_url req) = []"
proof -
  have inv: "arrived_inv expected s" using reach by (rule reachable_inv)
  have d: "distinct (Object_keys (arrived s (req_url req)))"
    using inv by (simp add: arrived_inv_def)
  have mem: "i \<in> set ids" using last by auto
  note valid = try_body_valid [OF post grp pid mem, of raises res s]
  have undef: "obj_get (arrived s (req_url req)) i = Undefined"
    using ok valid by (auto split: if_splits)
  have head: "\<not> raises (WriteHead res 200)"
    using ok valid undef by (auto split: if_splits)
  have all: "allCheckedIn ids (obj_set (arrived s (req_url req)) i res)"
    using last by (rule complete_of_last)
  note complete = try_body_complete [where raises = raises and res = res,
      OF post grp pid mem undef head all d]
  have quiet: "list_all (\<lambda>h. \<not> raises (End h (Some GO)))
      (map snd (obj_set (arrived s (req_url req)) i res))"
    using ok complete by (auto split: if_splits)
  with complete have tb: "try_body raises expected req res s =
      (None,
       s\<lparr>checkinStore := obj_set (checkinStore s) (req_url req) [],
         sent := sent s @ WriteHead res 200 #
           map (\<lambda>h. End h (Some GO)) (map snd (obj_set (arrived s (req_url req)) i res))\<rparr>)"
    by simp
  from on_end_accepted [OF tb] show ?thesis by (simp add: arrived_store_upd)
qed

theorem C1_last_checkin_releases_all_witness:
  "run ex_expected [(quiet, RequestEnd (post ''/'' ''h1'') 1)] init = Some ex_held \<and>
   ''h2'' \<notin> set (Object_keys (arrived ex_held ''/'')) \<and>
   insert ''h2'' (set (Object_keys (arrived ex_held ''/''))) = set [''h1'', ''h2''] \<and>
   fst (try_body quiet ex_expected (post ''/'' ''h2'') 2 ex_held) = None \<and>
   on_end quiet ex_expected (post ''/'' ''h2'') 2 ex_held =
     (Returned, \<lparr>checkinStore = [(''/'', [])],
        sent = [WriteHead 1 200, WriteHead 2 200, End 1 (Some GO), End 2 (Some GO)]\<rparr>)"
proof -
  have a: "req_method (post ''/'' ''h2'') = ''POST''" by (simp add: post_def)
  have b: "map_of ex_expected (req_url (post ''/'' ''h2'')) = Some [''h1'', ''h2'']"
    by (simp add: post_def ex_expected_def)
  have c: "req_id (post ''/'' ''h2'') = QStr ''h2''" by (simp add: post_def)
  have d: "''h2'' \<notin> set (Object_keys (arrived ex_held (req_url (post ''/'' ''h2''))))"
    by (simp add: post_def ex_held_def arrived_def Object_keys_def)
  have e: "insert ''h2'' (set (Object_keys (arrived ex_held (req_url (post ''/'' ''h2''))))) =
      set [''h1'', ''h2'']"
    by (auto simp: post_def ex_held_def arrived_def Object_keys_def)
  have f: "fst (try_body quiet ex_expected (post ''/'' ''h2'') 2 ex_held) = None"
    by (simp add: example_defs eval_defs)
  have u: "req_url (post ''/'' ''h2'') = ''/''" by (simp add: post_def)
  from C1_last_checkin_releases_all [OF ex_held_reachable a b c d e f]
  have "on_end quiet ex_expected (post ''/'' ''h2'') 2 ex_held =
     (Returned, \<lparr>checkinStore = [(''/'', [])],
        sent = [WriteHead 1 200, WriteHead 2 200, End 1 (Some GO), End 2 (Some GO)]\<rparr>)"
    by (simp add: u ex_held_def arrived_def obj_set_def array_index_def digit_def)
  with ex_held_reachable d e f u show ?thesis by simp
qed

text \<open>
  C2. In every state the server can reach, and for every url, the keys of the arrived map
  are expected ids of that url and the map has no more entries than there are expected
  ids. The same holds in the state any check-in leaves, whether it is accepted, rejected
  or ended by an exception.
\<close>

theorem C2_arrived_within_expected:
  assumes "run expected evs init = Some s"
  shows "arrived_within expected s u \<and>
    arrived_within expected (snd (on_end raises expected req res s)) u"
proof -
  have inv: "arrived_inv expected s" using assms by (rule reachable_inv)
  then have "arrived_inv expected (snd (on_end raises expected req res s))"
    by (rule arrived_inv_on_end)
  with inv show ?thesis by (simp add: arrived_inv_within)
qed

theorem C2_arrived_within_expected_witness:
  "run ex_expected [(quiet, RequestEnd (post ''/'' ''h1'') 1)] init = Some ex_held \<and>
   arrived_within ex_expected ex_held ''/'' \<and>
   arrived_within ex_expected (snd (on_end quiet ex_expected (post ''/'' ''h3'') 2 ex_held)) ''/''"
  using C2_arrived_within_expected [OF ex_held_reachable, of "''/''" quiet "post ''/'' ''h3''" 2]
    ex_held_reachable
  by (intro conjI) simp_all

text \<open>
  C3. (Counterexample.) h1 is held with response object 1, whose \<^verbatim>\<open>end\<close> raises. The
  check-in of h2 completes the round: the exception of the first release leaves the
  \<^verbatim>\<open>forEach\<close> and the listener, so response object 2 gets no \<^verbatim>\<open>end('GO\r\n')\<close>
  and the arrived map is not reset.
\<close>

theorem C3_counterexample:
  "run ex_expected [(quiet, RequestEnd (post ''/'' ''h1'') 1)] init = Some ex_held \<and>
   on_end raises_end1 ex_expected (post ''/'' ''h2'') 2 ex_held =
     (Uncaught, \<lparr>checkinStore = [(''/'', [(''h1'', 1), (''h2'', 2)])],
                  sent = [WriteHead 1 200, WriteHead 2 200]\<rparr>)"
  by (simp add: example_defs eval_defs GO_def CRLF_def)

text \<open>
  C3. (Amended.) The release of a completed round calls \<^verbatim>\<open>end('GO\r\n')\<close> on the held
  response objects one after the other, in the order of \<^verbatim>\<open>Object.keys\<close>, with nothing
  that catches an exception in between. When no call raises, every object is released and
  the arrived map is reset. When a call raises, the objects before it have been released,
  the exception leaves the listener uncaught, the objects after it get no call and the
  arrived map keeps every entry.
\<close>

theorem C3_release_stops_at_first_raise:
  assumes reach: "run expected evs init = Some s"
    and post: "req_method req = ''POST''"
    and grp: "map_of expected (req_url req) = Some ids"
    and pid: "req_id req = QStr i"
    and mem: "i \<in> set ids"
    and new: "obj_get (arrived s (req_url req)) i = Undefined"
    and head: "\<not> raises (WriteHead res 200)"
    and complete: "allCheckedIn ids (obj_set (arrived s (req_url req)) i res)"
  shows "on_end raises expected req res s =
     (if list_all (\<lambda>h. \<not> raises (End h (Some GO)))
           (map snd (obj_set (arrived s (req_url req)) i res))
      then (Returned,
            s\<lparr>checkinStore := obj_set (checkinStore s) (req_url req) [],
              sent := sent s @ WriteHead res 200 #
                map (\<lambda>h. End h (Some GO)) (map snd (obj_set (arrived s (req_url req)) i res))\<rparr>)
      else (Uncaught,
            s\<lparr>checkinStore := obj_set (checkinStore s) (req_url req)
                  (obj_set (arrived s (req_url req)) i res),
              sent := sent s @ WriteHead res 200 #
                map (\<lambda>h. End h (Some GO))
                  (takeWhile (\<lambda>h. \<not> raises (End h (Some GO)))
                     (map snd (obj_set (arrived s (req_url req)) i res)))\<rparr>))"
proof -
  have inv: "arrived_inv expected s" using reach by (rule reachable_inv)
  have d: "distinct (Object_keys (arrived s (req_url req)))"
    using inv by (simp add: arrived_inv_def)
  note tb = try_body_complete [where raises = raises and res = res,
      OF post grp pid mem new head complete d]
  show ?thesis
  proof (cases "list_all (\<lambda>h. \<not> raises (End h (Some GO)))
           (map snd (obj_set (arrived s (req_url req)) i res))")
    case True
    with tb on_end_accepted [of raises expected req res s] show ?thesis by simp
  next
    case False
    with tb on_end_OtherError [of raises expected req res s] show ?thesis by simp
  qed
qed

theorem C3_release_stops_at_first_raise_witness:
  "run ex_expected [(quiet, RequestEnd (post ''/'' ''h1'') 1)] init = Some ex_held \<and>
   obj_get (arrived ex_held ''/'') ''h2'' = Undefined \<and>
   allCheckedIn [''h1'', ''h2''] (obj_set (arrived ex_held ''/'') ''h2'' 2) \<and>
   on_end quiet ex_expected (post ''/'' ''h2'') 2 ex_held =
     (Returned, \<lparr>checkinStore = [(''/'', [])],
        sent = [WriteHead 1 200, WriteHead 2 200, End 1 (Some GO), End 2 (Some GO)]\<rparr>) \<and>
   on_end raises_end1 ex_expected (post ''/'' ''h2'') 3 ex_held =
     (Uncaught, \<lparr>checkinStore = [(''/'', [(''h1'', 1), (''h2'', 3)])],
        sent = [WriteHead 1 200, WriteHead 3 200]\<rparr>)"
proof -
  have a: "req_method (post ''/'' ''h2'') = ''POST''" by (simp add: post_def)
  have b: "map_of ex_expected (req_url (post ''/'' ''h2'')) = Some [''h1'', ''h2'']"
    by (simp add: post_def ex_expected_def)
  have c: "req_id (post ''/'' ''h2'') = QStr ''h2''" by (simp add: post_def)
  have d: "''h2'' \<in> set [''h1'', ''h2'']" by simp
  have u: "req_url (post ''/'' ''h2'') = ''/''" by (simp add: post_def)
  have e: "obj_get (arrived ex_held (req_url (post ''/'' ''h2''))) ''h2'' = Undefined"
    by (simp add: u ex_held_def arrived_def obj_get_def Object_prototype_def)
  have f: "\<not> quiet (WriteHead 2 200)" by (simp add: quiet_def)
  have f': "\<not> raises_end1 (WriteHead 3 200)" by (simp add: raises_end1_def)
  have g: "allCheckedIn [''h1'', ''h2'']
      (obj_set (arrived ex_held (req_url (post ''/'' ''h2''))) ''h2'' h)" for h
    by (simp add: u ex_held_def arrived_def obj_get_def obj_set_def array_index_def digit_def
        allCheckedIn_def)
  have r1: "on_end quiet ex_expected (post ''/'' ''h2'') 2 ex_held =
     (Returned, \<lparr>checkinStore = [(''/'', [])],
        sent = [WriteHead 1 200, WriteHead 2 200, End 1 (Some GO), End 2 (Some GO)]\<rparr>)"
    using C3_release_stops_at_first_raise [where raises = quiet and res = 2,
        OF ex_held_reachable a b c d e f g]
    by (simp add: u quiet_def ex_held_def arrived_def obj_set_def array_index_def digit_def)
  have r2: "on_end raises_end1 ex_expected (post ''/'' ''h2'') 3 ex_held =
     (Uncaught, \<lparr>checkinStore = [(''/'', [(''h1'', 1), (''h2'', 3)])],
        sent = [WriteHead 1 200, WriteHead 3 200]\<rparr>)"
    using C3_release_stops_at_first_raise [where raises = raises_end1 and res = 3,
        OF ex_held_reachable a b c d e f' g]
    by (simp add: u raises_end1_def ex_held_def arrived_def obj_set_def array_index_def digit_def)
  from ex_held_reachable e g [of 2] r1 r2 u show ?thesis by simp
qed

text \<open>
  C4. The configuration holds the interval under the key \<^verbatim>\<open>keepAliveIntervalMs\<close>, by
  default 60000, and a configuration file that sets that key changes it there. The ticker
  is started with \<^verbatim>\<open>config.keepaliveIntervalMs\<close>, a key the configuration does not
  have: what \<^verbatim>\<open>setInterval\<close> receives is \<^verbatim>\<open>undefined\<close>, with the default
  configuration and with a file that sets the interval to 5000.
\<close>

theorem C4_ticker_interval_undefined:
  "obj_get (own_props (load_config None)) ''keepAliveIntervalMs'' = Own (JNum 60000) \<and>
   ticker_interval (load_config None) = None \<and>
   obj_get (own_props (load_config (Some [(''keepAliveIntervalMs'', JNum 5000)])))
       ''keepAliveIntervalMs'' = Own (JNum 5000) \<and>
   ticker_interval (load_config (Some [(''keepAliveIntervalMs'', JNum 5000)])) = None"
  by (simp add: ticker_interval_def load_config_def default_config_def config_put_def
      obj_get_def obj_set_def)

text \<open>
  C5. In a group of the configuration, a check-in whose id is not one of the expected ids
  (no id, several ids, or a string that is not in the list) throws the
  \<^verbatim>\<open>HttpError\<close> 400 with the message \<^verbatim>\<open>Unrecognized id\<close> and leaves the state as it
  was; the listener answers with that status and message and keeps \<^verbatim>\<open>checkinStore\<close>,
  so every arrived map is what it was.
\<close>

theorem C5_unrecognized_id:
  assumes "req_method req = ''POST''"
    and "map_of expected (req_url req) = Some ids"
    and "req_id req \<notin> QStr ` set ids"
  shows "try_body raises expected req res s =
      (Some (HttpError 400 (Some (unrecognized_msg (req_id req)))), s) \<and>
    on_end raises expected req res s =
      (if raises (End res (Some (unrecognized_msg (req_id req))))
       then (Uncaught, s\<lparr>sent := sent s @ [StatusCode res 400]\<rparr>)
       else (Returned, s\<lparr>sent := sent s @
               [StatusCode res 400, End res (Some (unrecognized_msg (req_id req)))]\<rparr>)) \<and>
    checkinStore (snd (on_end raises expected req res s)) = checkinStore s \<and>
    arrived (snd (on_end raises expected req res s)) u = arrived s u"
proof -
  have "indexOf ids (req_id req) = - 1"
    using assms(3) by (auto simp: indexOf_minus1_iff)
  with assms(1,2)
  have tb: "try_body raises expected req res s =
      (Some (HttpError 400 (Some (unrecognized_msg (req_id req)))), s)"
    by (rule try_body_unrecognized)
  from on_end_HttpError [OF tb] tb show ?thesis by (simp add: arrived_def)
qed

theorem C5_unrecognized_id_witness:
  "req_method (post ''/'' ''h3'') = ''POST'' \<and>
   map_of ex_expected (req_url (post ''/'' ''h3'')) = Some [''h1'', ''h2''] \<and>
   req_id (post ''/'' ''h3'') \<notin> QStr ` set [''h1'', ''h2''] \<and>
   on_end quiet ex_expected (post ''/'' ''h3'') 2 ex_held =
     (Returned, \<lparr>checkinStore = [(''/'', [(''h1'', 1)])],
        sent = [WriteHead 1 200, StatusCode 2 400,
                End 2 (Some (''Unrecognized id: '' @ [dquote] @ ''h3'' @ [dquote] @ CRLF))]\<rparr>)"
proof -
  have a: "req_method (post ''/'' ''h3'') = ''POST''" by (simp add: post_def)
  have b: "map_of ex_expected (req_url (post ''/'' ''h3'')) = Some [''h1'', ''h2'']"
    by (simp add: post_def ex_expected_def)
  have c: "req_id (post ''/'' ''h3'') \<notin> QStr ` set [''h1'', ''h2'']"
    by (simp add: post_def)
  from C5_unrecognized_id [OF a b c, of quiet 2 ex_held] a b c
  show ?thesis by (simp add: quiet_def ex_held_def unrecognized_msg_def post_def)
qed

text \<open>
  C6. In a state the server can reach, a check-in with an id that already has an entry in
  the arrived map of its group throws the \<^verbatim>\<open>HttpError\<close> 400 with the message
  \<^verbatim>\<open>Duplicate id\<close> and leaves the state as it was: the listener answers the new
  request with that status and message, makes no call on the stored response object, and
  the arrived map still holds exactly that one object under the id.
\<close>

theorem C6_duplicate_id:
  assumes reach: "run expected evs init = Some s"
    and post: "req_method req = ''POST''"
    and pid: "req_id req = QStr i"
    and held: "map_of (arrived s (req_url req)) i = Some h"
  shows "try_body raises expected req res s =
      (Some (HttpError 400 (Some (duplicate_msg (QStr i)))), s) \<and>
    on_end raises expected req res s =
      (if raises (End res (Some (duplicate_msg (QStr i))))
       then (Uncaught, s\<lparr>sent := sent s @ [StatusCode res 400]\<rparr>)
       else (Returned, s\<lparr>sent := sent s @
               [StatusCode res 400, End res (Some (duplicate_msg (QStr i)))]\<rparr>)) \<and>
    map_of (arrived (snd (on_end raises expected req res s)) (req_url req)) i = Some h \<and>
    handles_of (arrived (snd (on_end raises expected req res s)) (req_url req)) i = [h]"
proof -
  have inv: "arrived_inv expected s" using reach by (rule reachable_inv)
  have d: "distinct (Object_keys (arrived s (req_url req)))"
    using inv by (simp add: arrived_inv_def)
  have key: "i \<in> set (Object_keys (arrived s (req_url req)))"
    using held by (auto simp: Object_keys_def dest: map_of_SomeD intro: rev_image_eqI)
  with inv have "i \<in> expected_set expected (req_url req)"
    by (auto simp: arrived_inv_def)
  then obtain ids where grp: "map_of expected (req_url req) = Some ids" and mem: "i \<in> set ids"
    by (auto simp: expected_set_def split: option.splits)
  have dup: "obj_get (arrived s (req_url req)) i \<noteq> Undefined"
    using key by (simp add: obj_get_Undefined)
  have same: "obj_set (checkinStore s) (req_url req) (arrived s (req_url req)) = checkinStore s"
    using reachable_store_distinct [OF reach] arrived_Some_store [OF held]
    by (rule obj_set_same)
  have tb: "try_body raises expected req res s =
      (Some (HttpError 400 (Some (duplicate_msg (QStr i)))), s)"
    using try_body_duplicate [OF post grp pid mem dup, of raises res] same by simp
  have hs: "handles_of (arrived s (req_url req)) i = [h]"
    using d held by (rule handles_of_distinct)
  from on_end_HttpError [OF tb] tb held hs show ?thesis by simp
qed

theorem C6_duplicate_id_witness:
  "run ex_expected [(quiet, RequestEnd (post ''/'' ''h1'') 1)] init = Some ex_held \<and>
   map_of (arrived ex_held (req_url (post ''/'' ''h1''))) ''h1'' = Some 1 \<and>
   on_end quiet ex_expected (post ''/'' ''h1'') 2 ex_held =
     (Returned, \<lparr>checkinStore = [(''/'', [(''h1'', 1)])],
        sent = [WriteHead 1 200, StatusCode 2 400,
                End 2 (Some (''Duplicate id: '' @ [dquote] @ ''h1'' @ [dquote] @ CRLF))]\<rparr>)"
proof -
  have a: "req_method (post ''/'' ''h1'') = ''POST''" by (simp add: post_def)
  have b: "req_id (post ''/'' ''h1'') = QStr ''h1''" by (simp add: post_def)
  have c: "map_of (arrived ex_held (req_url (post ''/'' ''h1''))) ''h1'' = Some 1"
    by (simp add: post_def ex_held_def arrived_def)
  from C6_duplicate_id [OF ex_held_reachable a b c, of quiet 2] ex_held_reachable c
  show ?thesis by (simp add: quiet_def ex_held_def duplicate_msg_def)
qed

text \<open>
  C7. (Counterexample.) In the group that expects h1 alone, the check-in of h1 completes
  a round. The next check-in of h1 is accepted but not held: it is released in the same
  call of the listener and the arrived map is empty afterwards. The same happens in the
  group that expects constructor and h1, where the check-in of h1 alone passes the test
  of line 116.
\<close>

theorem C7_counterexample:
  "run ex_single [(quiet, RequestEnd (post ''/'' ''h1'') 1)] init = Some ex_alone_released \<and>
   on_end quiet ex_single (post ''/'' ''h1'') 2 ex_alone_released =
     (Returned, \<lparr>checkinStore = [(''/'', [])],
        sent = [WriteHead 1 200, End 1 (Some GO), WriteHead 2 200, End 2 (Some GO)]\<rparr>) \<and>
   run ex_inherited [(quiet, RequestEnd (post ''/'' ''h1'') 1)] init = Some ex_alone_released \<and>
   on_end quiet ex_inherited (post ''/'' ''h1'') 2 ex_alone_released =
     (Returned, \<lparr>checkinStore = [(''/'', [])],
        sent = [WriteHead 1 200, End 1 (Some GO), WriteHead 2 200, End 2 (Some GO)]\<rparr>)"
  by (simp add: example_defs eval_defs)

text \<open>
  C7. (Amended.) In a state the server can reach, let a check-in be accepted whose id was
  the one expected id of its group with no entry in the arrived map, so that every
  expected id has checked in and the round is released. Then the arrived map of the group
  is empty: nothing of the round stays. A new check-in by any expected id of the group is
  accepted, not rejected as a duplicate: when the group expects other ids as well it is
  held as the only entry of the arrived map, and when it is the only expected id it
  completes the next round in the same call (it is released at once and the map is empty
  again). And any number of further rounds complete: when the expected ids check in again,
  in any order and with any response objects, round after round, the server accepts every
  check-in, releases every response object once and ends each round with an empty arrived
  map.
\<close>

theorem C7_rounds_repeat:
  assumes reach: "run expected evs init = Some s"
    and post: "req_method req = ''POST''"
    and grp: "map_of expected (req_url req) = Some ids"
    and pid: "req_id req = QStr i"
    and last: "insert i (set (Object_keys (arrived s (req_url req)))) = set ids"
    and accepted: "try_body raises expected req res s = (None, s1)"
    and k: "k \<in> set ids"
    and rounds: "\<forall>r \<in> set rs. distinct (map fst r) \<and> set (map fst r) = set ids"
  shows "arrived s1 (req_url req) = [] \<and>
    try_body quiet expected (post (req_url req) k) res' s1 =
      (None,
       s1\<lparr>checkinStore := obj_set (checkinStore s1) (req_url req)
               (if set ids = {k} then [] else [(k, res')]),
          sent := sent s1 @ WriteHead res' 200 #
               (if set ids = {k} then [End res' (Some GO)] else [])\<rparr>) \<and>
    (\<exists>s'. run expected (concat (map (checkins_of (req_url req)) rs)) s1 = Some s' \<and>
       arrived s' (req_url req) = [] \<and>
       mset (sent s') = mset (sent s1) + mset (concat (map round_calls rs)))"
proof -
  let ?u = "req_url req"
  let ?c = "obj_set (arrived s ?u) i res"
  have inv: "arrived_inv expected s" using reach by (rule reachable_inv)
  have inv1: "arrived_inv expected s1" using inv accepted by (rule arrived_inv_try_body)
  have d: "distinct (Object_keys (arrived s ?u))" using inv by (simp add: arrived_inv_def)
  have mem: "i \<in> set ids" using last by auto
  note valid = try_body_valid [OF post grp pid mem, of raises res s]
  have undef: "obj_get (arrived s ?u) i = Undefined"
    using accepted valid by (auto split: if_splits)
  have head: "\<not> raises (WriteHead res 200)"
    using accepted valid undef by (auto split: if_splits)
  have complete: "allCheckedIn ids ?c" using last by (rule complete_of_last)
  note tbc = try_body_complete [where raises = raises and res = res,
      OF post grp pid mem undef head complete d]
  have s1: "s1 = s\<lparr>checkinStore := obj_set (checkinStore s) ?u [],
         sent := sent s @ WriteHead res 200 # map (\<lambda>h. End h (Some GO)) (map snd ?c)\<rparr>"
    using accepted tbc by (auto split: if_splits)
  have empty: "arrived s1 ?u = []" unfolding s1 by (simp add: arrived_store_upd)
  have fresh: "i \<notin> set Object_prototype" using undef by (simp add: obj_get_Undefined)
  have "set (Object_keys (arrived s ?u)) \<subseteq> expected_set expected ?u - set Object_prototype"
    using inv by (simp add: arrived_inv_def)
  with fresh last have no_inherited: "set ids - set Object_prototype = set ids" by auto
  then have k_proto: "k \<notin> set Object_prototype" using k by auto
  have undef1: "obj_get (arrived s1 ?u) k = Undefined"
    using k_proto by (simp add: empty obj_get_Undefined Object_keys_def)
  have one: "obj_set [] k res' = [(k, res')]"
    by (cases "array_index k") (simp_all add: obj_set_def)
  have d1: "distinct (Object_keys (arrived s1 ?u))" by (simp add: empty Object_keys_def)
  have all1: "allCheckedIn ids (obj_set (arrived s1 ?u) k res') \<longleftrightarrow> set ids = {k}"
    using k unfolding empty one allCheckedIn_iff no_inherited
    by (auto simp: Object_keys_def)
  have fresh_checkin: "try_body quiet expected (post ?u k) res' s1 =
      (None,
       s1\<lparr>checkinStore := obj_set (checkinStore s1) ?u (if set ids = {k} then [] else [(k, res')]),
          sent := sent s1 @ WriteHead res' 200 #
               (if set ids = {k} then [End res' (Some GO)] else [])\<rparr>)"
  proof (cases "set ids = {k}")
    case True
    with all1 have "allCheckedIn ids (obj_set (arrived s1 ?u) k res')" by simp
    from try_post_complete [OF grp k undef1 this d1] True
    show ?thesis by (simp add: empty one)
  next
    case False
    with all1 have "\<not> allCheckedIn ids (obj_set (arrived s1 ?u) k res')" by simp
    from try_post_held [OF grp k undef1 this] False
    show ?thesis by (simp add: empty one)
  qed
  have ne: "set ids - set Object_prototype \<noteq> {}" using k no_inherited by auto
  have rs: "\<forall>r \<in> set rs. distinct (map fst r) \<and>
      set (map fst r) = set ids - set Object_prototype"
    using rounds no_inherited by simp
  from run_rounds [OF inv1 grp empty ne rs] empty fresh_checkin
  show ?thesis by simp
qed

theorem C7_rounds_repeat_witness:
  "run ex_expected [(quiet, RequestEnd (post ''/'' ''h1'') 1)] init = Some ex_held \<and>
   insert ''h2'' (set (Object_keys (arrived ex_held ''/''))) = set [''h1'', ''h2''] \<and>
   try_body quiet ex_expected (post ''/'' ''h2'') 2 ex_held = (None, ex_released) \<and>
   arrived ex_released ''/'' = [] \<and>
   try_body quiet ex_expected (post ''/'' ''h1'') 7 ex_released =
     (None, \<lparr>checkinStore = [(''/'', [(''h1'', 7)])],
        sent = [WriteHead 1 200, WriteHead 2 200, End 1 (Some GO), End 2 (Some GO),
                WriteHead 7 200]\<rparr>) \<and>
   (\<exists>s'. run ex_expected
          (concat (map (checkins_of ''/'')
             [[(''h2'', 3), (''h1'', 4)], [(''h1'', 5), (''h2'', 6)]])) ex_released = Some s' \<and>
       arrived s' ''/'' = [] \<and>
       mset (sent s') = mset (sent ex_released) +
         mset (concat (map round_calls [[(''h2'', 3), (''h1'', 4)], [(''h1'', 5), (''h2'', 6)]])))"
proof -
  have u: "req_url (post ''/'' ''h2'') = ''/''" by (simp add: post_def)
  have a: "req_method (post ''/'' ''h2'') = ''POST''" by (simp add: post_def)
  have b: "map_of ex_expected (req_url (post ''/'' ''h2'')) = Some [''h1'', ''h2'']"
    by (simp add: post_def ex_expected_def)
  have c: "req_id (post ''/'' ''h2'') = QStr ''h2''" by (simp add: post_def)
  have l: "insert ''h2'' (set (Object_keys (arrived ex_held (req_url (post ''/'' ''h2''))))) =
      set [''h1'', ''h2'']"
    by (auto simp: u ex_held_def arrived_def Object_keys_def)
  have e: "try_body quiet ex_expected (post ''/'' ''h2'') 2 ex_held = (None, ex_released)"
    by (simp add: example_defs eval_defs)
  have g: "''h1'' \<in> set [''h1'', ''h2'']" by simp
  have h: "\<forall>r \<in> set [[(''h2'', 3), (''h1'', 4)], [(''h1'', 5), (''h2'', 6)]].
      distinct (map fst r) \<and> set (map fst r) = set [''h1'', ''h2'']"
    by auto
  have ne: "set [''h1'', ''h2''] \<noteq> {''h1''}" by auto
  from C7_rounds_repeat [OF ex_held_reachable a b c l e g h, of 7]
  have "arrived ex_released ''/'' = [] \<and>
   try_body quiet ex_expected (post ''/'' ''h1'') 7 ex_released =
     (None, \<lparr>checkinStore = [(''/'', [(''h1'', 7)])],
        sent = [WriteHead 1 200, WriteHead 2 200, End 1 (Some GO), End 2 (Some GO),
                WriteHead 7 200]\<rparr>) \<and>
   (\<exists>s'. run ex_expected
          (concat (map (checkins_of ''/'')
             [[(''h2'', 3), (''h1'', 4)], [(''h1'', 5), (''h2'', 6)]])) ex_released = Some s' \<and>
       arrived s' ''/'' = [] \<and>
       mset (sent s') = mset (sent ex_released) +
         mset (concat (map round_calls [[(''h2'', 3), (''h1'', 4)], [(''h1'', 5), (''h2'', 6)]])))"
    unfolding u using ne by (simp add: ex_released_def obj_set_def)
  with ex_held_reachable l e u show ?thesis by simp
qed

text \<open>
  C8. (Counterexample.) h1 is held with response object 1 and its connection closes: no
  code of the server runs, and the arrived map still holds the entry of h1.
\<close>

theorem C8_counterexample:
  "run ex_expected [(quiet, RequestEnd (post ''/'' ''h1'') 1)] init = Some ex_held \<and>
   map_of (arrived ex_held ''/'') ''h1'' = Some 1 \<and>
   step quiet ex_expected (Close 1) ex_held = (Returned, ex_held) \<and>
   map_of (arrived (snd (step quiet ex_expected (Close 1) ex_held)) ''/'') ''h1'' = Some 1"
  by (simp add: example_defs eval_defs)

text \<open>
  C8. (Amended.) An entry of an arrived map is removed only by the release of a round:
  when a step of the server takes an entry away (or puts another response object in its
  place), that step is a check-in at the url of the entry's group, by an expected id with
  no entry, that passed the test of line 116; its listener returned after calling
  \<^verbatim>\<open>writeHead(200)\<close> on the new response object and \<^verbatim>\<open>end('GO\r\n')\<close> on every held
  one, the entry's included, and it left the arrived map of the group empty. Where no
  expected id of the group has the name of a property of \<^verbatim>\<open>Object.prototype\<close>, the round
  so released is complete: the ids of the arrived map and the new id are exactly the
  expected ids. The closing of a connection changes nothing: the entry of a participant
  whose connection has died stays in the arrived map.
\<close>

theorem C8_entry_removed_only_by_release:
  assumes reach: "run expected evs init = Some s"
    and held: "map_of (arrived s u) k = Some h"
    and st: "step raises expected ev s = (out, s')"
    and gone: "map_of (arrived s' u) k \<noteq> Some h"
  shows "(\<exists>req res ids i.
        ev = RequestEnd req res \<and> req_method req = ''POST'' \<and> req_url req = u \<and>
        map_of expected u = Some ids \<and> req_id req = QStr i \<and> i \<in> set ids \<and>
        i \<notin> set (Object_keys (arrived s u)) \<and>
        allCheckedIn ids (obj_set (arrived s u) i res) \<and>
        (set ids \<inter> set Object_prototype = {} \<longrightarrow>
           insert i (set (Object_keys (arrived s u))) = set ids) \<and>
        sent s' = sent s @ WriteHead res 200 #
          map (\<lambda>h. End h (Some GO)) (map snd (obj_set (arrived s u) i res))) \<and>
    out = Returned \<and> arrived s' u = [] \<and>
    End h (Some GO) \<in> set (drop (length (sent s)) (sent s')) \<and>
    step raises expected (Close h) s = (Returned, s)"
proof (cases ev)
  case Interval
  with st have "arrived s' u = arrived (snd (tick raises s)) u" by auto
  with held gone show ?thesis by (simp add: tick_arrived)
next
  case (Close h')
  with st held gone show ?thesis by simp
next
  case (RequestEnd req res)
  have inv: "arrived_inv expected s" using reach by (rule reachable_inv)
  have key: "k \<in> set (Object_keys (arrived s u))" using held by (rule map_of_key)
  obtain e s1 where tb: "try_body raises expected req res s = (e, s1)"
    by (cases "try_body raises expected req res s")
  from st RequestEnd have on: "on_end raises expected req res s = (out, s')" by simp
  have same: "arrived s' v = arrived s1 v" for v
    using on_end_arrived_eq [of raises expected req res s v] on tb by simp
  from try_body_arrived [OF tb] held gone same
  obtain ids i where grp: "map_of expected (req_url req) = Some ids"
    and pid: "req_id req = QStr i" and mem: "i \<in> set ids"
    and post: "req_method req = ''POST''"
    and undef: "obj_get (arrived s (req_url req)) i = Undefined"
    and other: "\<forall>v. v \<noteq> req_url req \<longrightarrow> arrived s1 v = arrived s v"
    and here: "arrived s1 (req_url req) = obj_set (arrived s (req_url req)) i res \<or>
         arrived s1 (req_url req) = []"
    by auto
  have u: "req_url req = u"
    using other held gone same by (cases "u = req_url req") auto
  have fresh: "i \<notin> set (Object_keys (arrived s u))"
    using undef u by (simp add: obj_get_Undefined)
  with key have ne: "i \<noteq> k" by auto
  have kept: "map_of (obj_set (arrived s u) i res) k = Some h"
    using held ne by (simp add: map_of_obj_set)
  have d: "distinct (Object_keys (arrived s (req_url req)))"
    using inv by (simp add: arrived_inv_def)
  note valid = try_body_valid [OF post grp pid mem, of raises res s]
  have head: "\<not> raises (WriteHead res 200)"
  proof
    assume "raises (WriteHead res 200)"
    with valid undef tb have "\<forall>v. arrived s1 v = arrived s v"
      by (auto simp: arrived_store_upd)
    with held gone same show False by simp
  qed
  have complete: "allCheckedIn ids (obj_set (arrived s (req_url req)) i res)"
  proof (rule ccontr)
    assume "\<not> allCheckedIn ids (obj_set (arrived s (req_url req)) i res)"
    from try_body_held [where raises = raises and res = res,
        OF post grp pid mem undef head this] tb
    have "arrived s1 u = obj_set (arrived s u) i res"
      by (auto simp: arrived_store_upd u)
    with kept gone same show False by simp
  qed
  note tbc = try_body_complete [where raises = raises and res = res,
      OF post grp pid mem undef head complete d]
  have ok: "list_all (\<lambda>h. \<not> raises (End h (Some GO)))
      (map snd (obj_set (arrived s (req_url req)) i res))"
  proof (rule ccontr)
    assume "\<not> list_all (\<lambda>h. \<not> raises (End h (Some GO)))
      (map snd (obj_set (arrived s (req_url req)) i res))"
    with tbc tb have "arrived s1 u = obj_set (arrived s u) i res"
      by (auto simp: arrived_store_upd u)
    with kept gone same show False by simp
  qed
  with tbc have tb': "try_body raises expected req res s =
      (None,
       s\<lparr>checkinStore := obj_set (checkinStore s) (req_url req) [],
         sent := sent s @ WriteHead res 200 #
           map (\<lambda>h. End h (Some GO)) (map snd (obj_set (arrived s (req_url req)) i res))\<rparr>)"
    by simp
  from on_end_accepted [OF tb'] on
  have out: "out = Returned"
    and s': "s' = s\<lparr>checkinStore := obj_set (checkinStore s) (req_url req) [],
         sent := sent s @ WriteHead res 200 #
           map (\<lambda>h. End h (Some GO)) (map snd (obj_set (arrived s (req_url req)) i res))\<rparr>"
    by simp_all
  have "(k, h) \<in> set (arrived s u)" using held by (rule map_of_SomeD)
  then have "(k, h) \<in> set (obj_set (arrived s u) i res)"
    using fresh by (simp add: set_obj_set_new)
  then have "End h (Some GO) \<in>
      (\<lambda>x. End (snd x) (Some GO)) ` set (obj_set (arrived s u) i res)"
    by (rule rev_image_eqI) simp
  then have called: "End h (Some GO) \<in> set (drop (length (sent s)) (sent s'))"
    unfolding s' u by simp
  have empty: "arrived s' u = []" unfolding s' by (simp add: arrived_store_upd u)
  have calls: "sent s' = sent s @ WriteHead res 200 #
      map (\<lambda>h. End h (Some GO)) (map snd (obj_set (arrived s u) i res))"
    unfolding s' u by simp
  have "set (Object_keys (arrived s u)) \<subseteq> expected_set expected u - set Object_prototype"
    using inv by (simp add: arrived_inv_def)
  moreover have "expected_set expected u = set ids"
    using grp u by (simp add: expected_set_def)
  ultimately have within: "set (Object_keys (arrived s u)) \<subseteq> set ids" by auto
  have all: "set ids - set Object_prototype \<subseteq> insert i (set (Object_keys (arrived s u)))"
    using complete u by (simp add: allCheckedIn_iff keys_obj_set)
  have whole: "set ids \<inter> set Object_prototype = {} \<longrightarrow>
      insert i (set (Object_keys (arrived s u))) = set ids"
    using within all mem by auto
  have "\<exists>req res ids i.
        ev = RequestEnd req res \<and> req_method req = ''POST'' \<and> req_url req = u \<and>
        map_of expected u = Some ids \<and> req_id req = QStr i \<and> i \<in> set ids \<and>
        i \<notin> set (Object_keys (arrived s u)) \<and>
        allCheckedIn ids (obj_set (arrived s u) i res) \<and>
        (set ids \<inter> set Object_prototype = {} \<longrightarrow>
           insert i (set (Object_keys (arrived s u))) = set ids) \<and>
        sent s' = sent s @ WriteHead res 200 #
          map (\<lambda>h. End h (Some GO)) (map snd (obj_set (arrived s u) i res))"
    using RequestEnd post u grp pid mem fresh complete whole calls by blast
  with out empty called show ?thesis by simp
qed

theorem C8_entry_removed_only_by_release_witness:
  "run ex_expected [(quiet, RequestEnd (post ''/'' ''h1'') 1)] init = Some ex_held \<and>
   map_of (arrived ex_held ''/'') ''h1'' = Some 1 \<and>
   step quiet ex_expected (RequestEnd (post ''/'' ''h2'') 2) ex_held = (Returned, ex_released) \<and>
   map_of (arrived ex_released ''/'') ''h1'' \<noteq> Some 1 \<and>
   set [''h1'', ''h2''] \<inter> set Object_prototype = {} \<and>
   insert ''h2'' (set (Object_keys (arrived ex_held ''/''))) = set [''h1'', ''h2''] \<and>
   allCheckedIn [''h1'', ''h2''] (obj_set (arrived ex_held ''/'') ''h2'' 2) \<and>
   End 1 (Some GO) \<in> set (drop (length (sent ex_held)) (sent ex_released)) \<and>
   step quiet ex_expected (Close 1) ex_held = (Returned, ex_held)"
proof -
  have a: "map_of (arrived ex_held ''/'') ''h1'' = Some 1"
    by (simp add: ex_held_def arrived_def)
  have b: "step quiet ex_expected (RequestEnd (post ''/'' ''h2'') 2) ex_held =
      (Returned, ex_released)"
    by (simp add: example_defs eval_defs)
  have c: "map_of (arrived ex_released ''/'') ''h1'' \<noteq> Some 1"
    by (simp add: ex_released_def arrived_def)
  have p: "set [''h1'', ''h2''] \<inter> set Object_prototype = {}"
    by (simp add: Object_prototype_def)
  have grp: "map_of ex_expected ''/'' = Some [''h1'', ''h2'']"
    by (simp add: ex_expected_def)
  have pid: "req_id (post ''/'' ''h2'') = QStr ''h2''" by (simp add: post_def)
  note inst = C8_entry_removed_only_by_release [OF ex_held_reachable a b c]
  from inst obtain req res ids i
    where ev: "RequestEnd (post ''/'' ''h2'') 2 = RequestEnd req res"
      and g: "map_of ex_expected ''/'' = Some ids" and i: "req_id req = QStr i"
      and all: "allCheckedIn ids (obj_set (arrived ex_held ''/'') i res)"
      and whole: "set ids \<inter> set Object_prototype = {} \<longrightarrow>
           insert i (set (Object_keys (arrived ex_held ''/''))) = set ids"
    by blast
  from ev have req: "req = post ''/'' ''h2''" and res: "res = 2" by simp_all
  from g grp have ids: "ids = [''h1'', ''h2'']" by simp
  from i req pid have i': "i = ''h2''" by simp
  from whole p have w: "insert ''h2'' (set (Object_keys (arrived ex_held ''/''))) =
      set [''h1'', ''h2'']"
    unfolding ids i' by simp
  from all have all': "allCheckedIn [''h1'', ''h2''] (obj_set (arrived ex_held ''/'') ''h2'' 2)"
    unfolding ids i' res .
  from inst ex_held_reachable a b c p w all' show ?thesis by blast
qed

text \<open>
  C10. A request whose method is not POST throws \<^verbatim>\<open>HttpError(405)\<close> at the first
  statement of the listener: whatever the configuration, the url and the id are, the
  answer is status 405 with no message, and the state keeps its \<^verbatim>\<open>checkinStore\<close>.
\<close>

theorem C10_not_post_405:
  assumes "req_method req \<noteq> ''POST''"
  shows "try_body raises expected req res s = (Some (HttpError 405 None), s) \<and>
    on_end raises expected req res s =
      (if raises (End res None) then (Uncaught, s\<lparr>sent := sent s @ [StatusCode res 405]\<rparr>)
       else (Returned, s\<lparr>sent := sent s @ [StatusCode res 405, End res None]\<rparr>)) \<and>
    checkinStore (snd (on_end raises expected req res s)) = checkinStore s"
proof -
  have tb: "try_body raises expected req res s = (Some (HttpError 405 None), s)"
    using assms by (rule try_body_not_post)
  from on_end_HttpError [OF tb] tb show ?thesis by simp
qed

theorem C10_not_post_405_witness:
  "req_method \<lparr>req_method = ''GET'', req_url = ''/'', req_id = QStr ''h2''\<rparr> \<noteq> ''POST'' \<and>
   on_end quiet ex_expected \<lparr>req_method = ''GET'', req_url = ''/'', req_id = QStr ''h2''\<rparr> 2 ex_held =
     (Returned, \<lparr>checkinStore = [(''/'', [(''h1'', 1)])],
                 sent = [WriteHead 1 200, StatusCode 2 405, End 2 None]\<rparr>)"
proof -
  have get: "req_method \<lparr>req_method = ''GET'', req_url = ''/'', req_id = QStr ''h2''\<rparr> \<noteq> ''POST''"
    by simp
  from C10_not_post_405 [OF get, of quiet ex_expected 2 ex_held] get
  show ?thesis by (simp add: quiet_def ex_held_def)
qed

end
